theory Spec2Isabelle
  imports Main "HOL-Library.Word"
begin

unbundle bit_operations_syntax

section \<open>Native-code signal handling and the allocation trigger (runtime/signals\_nat.c)\<close>

text \<open>
  The development embeds the three functions of \<^verbatim>\<open>runtime/signals_nat.c\<close>:
  \<^verbatim>\<open>caml_garbage_collection\<close>, \<^verbatim>\<open>handle_signal\<close> and \<^verbatim>\<open>caml_set_signal_action\<close>,
  for a 64-bit target. Machine words are \<open>64 word\<close>: \<^verbatim>\<open>uintnat\<close> is read unsigned,
  \<^verbatim>\<open>intnat\<close> is the same bit pattern read in two's complement, and \<open>+\<close>, \<open>-\<close> wrap.
  C \<^verbatim>\<open>int\<close> values that are only compared (signal numbers, action codes, return codes)
  are \<open>int\<close>.
\<close>

type_synonym uintnat = "64 word"
type_synonym intnat = "64 word"

subsection \<open>Data model\<close>

text \<open>
  Modelled from the spec: the frame descriptor record (its declaration lives in
  \<^verbatim>\<open>caml/frame_descriptors.h\<close>). It is keyed by a return address, carries the frame-size
  field (the reserved value \<open>0xFFFF\<close> marks absence of metadata, the bit of value \<open>2\<close>
  marks an allocation site), the count of live values with their offsets and, immediately
  following the offsets, a one-byte count of encoded sizes followed by that many encoded
  size bytes. \<open>alloc_len d i\<close> is the byte at address
  \<^verbatim>\<open>(unsigned char* )(&d->live_ofs[d->num_live]) + i\<close>; C reads memory without a bound, so
  the bytes are a total function of the offset.
\<close>

record frame_descr =
  retaddr :: uintnat
  frame_size :: "16 word"
  num_live :: "16 word"
  live_ofs :: "16 word list"
  alloc_len :: "nat \<Rightarrow> 8 word"

text \<open>
  Modelled from the spec: the frame-descriptor table \<^verbatim>\<open>caml_frame_descrs\<close>, an
  open-addressed array of descriptor pointers indexed through a bit mask. A null pointer
  (an empty slot) is \<open>None\<close>. The field \<^verbatim>\<open>mask\<close> is named \<open>mask_fds\<close> here.
\<close>

record caml_frame_descrs =
  num_descr :: int
  mask_fds :: uintnat
  descriptors :: "frame_descr option list"

text \<open>
  The part of \<^verbatim>\<open>Caml_state\<close> the handler touches: the heap cursor \<^verbatim>\<open>young_ptr\<close> (an
  address), the low-water limit \<^verbatim>\<open>young_limit\<close>, and the word stored at
  \<^verbatim>\<open>current_stack->sp\<close>, which is the return address of the triggering call site.
  \<open>extern_state\<close> stands for whatever else the external collector owns, and \<open>ext_calls\<close>
  is a log of the external entry points invoked so far, oldest first.
\<close>

datatype ext_call = Handle_gc_interrupt | Process_pending_signals

record caml_domain_state =
  young_ptr :: uintnat
  young_limit :: uintnat
  word_at_sp :: uintnat
  extern_state :: nat
  ext_calls :: "ext_call list"

text \<open>
  What the file takes from headers and other compilation units, as parameters:
  the hash macro \<^verbatim>\<open>Hash_retaddr\<close>, the size decoding macro \<^verbatim>\<open>Wosize_encoded_alloc_len\<close>,
  whether \<^verbatim>\<open>CAMLassert\<close> is compiled in (the debug runtime), the size in bytes of the
  object \<^verbatim>\<open>young_ptr\<close> points to (C pointer arithmetic scales by it), and the two external
  entry points, which receive the domain state and return it updated.
\<close>

record runtime_env =
  Hash_retaddr :: "uintnat \<Rightarrow> uintnat \<Rightarrow> uintnat"
  Wosize_encoded_alloc_len :: "8 word \<Rightarrow> intnat"
  debug_runtime :: bool
  sizeof_value :: uintnat
  caml_handle_gc_interrupt :: "caml_domain_state \<Rightarrow> caml_domain_state"
  caml_process_pending_signals :: "caml_domain_state \<Rightarrow> caml_domain_state"

text \<open>How the handler can fail to return: a read through a null or out-of-range
  pointer, or a failed \<^verbatim>\<open>CAMLassert\<close> (reported, then the process aborts).\<close>

datatype fault = Memory_fault | Assertion_failed

text \<open>A failed assertion goes through the runtime's reporting (\<^verbatim>\<open>caml_failed_assert\<close> prints
  the condition and aborts); a memory fault is raised by the hardware and reports
  nothing.\<close>

definition reported_fatal :: "fault \<Rightarrow> bool" where
  "reported_fatal f = (f = Assertion_failed)"

text \<open>Modelled from the spec: \<^verbatim>\<open>Whsize_wosize\<close>, the header-inclusive size of a
  header-exclusive size, is one word more (the object header).\<close>

definition Whsize_wosize :: "intnat \<Rightarrow> intnat" where
  "Whsize_wosize sz = sz + 1"

subsection \<open>caml\_garbage\_collection\<close>

text \<open>
  The probe loop
  \<^verbatim>\<open>while (1) { d = fds.descriptors[h]; if (d->retaddr == retaddr) break; h = (h + 1) & fds.mask; }\<close>
  It has no exit but the match, so not returning is the value \<open>None\<close>. Dereferencing an
  empty slot, or reading outside the array, is a memory fault.
\<close>

partial_function (option) find_frame_descr ::
  "frame_descr option list \<Rightarrow> uintnat \<Rightarrow> uintnat \<Rightarrow> uintnat \<Rightarrow> (fault + frame_descr) option"
where
  "find_frame_descr descs m ra h =
     (if unat h < length descs then
        (case descs ! unat h of
           None \<Rightarrow> Some (Inl Memory_fault)
         | Some d \<Rightarrow>
             if retaddr d = ra then Some (Inr d)
             else find_frame_descr descs m ra ((h + 1) AND m))
      else Some (Inl Memory_fault))"

declare find_frame_descr.simps [code]

text \<open>The condition of \<^verbatim>\<open>CAMLassert(d && d->frame_size != 0xFFFF && (d->frame_size & 2))\<close>;
  \<open>d\<close> is not null once the loop has read through it.\<close>

definition is_alloc_frame :: "frame_descr \<Rightarrow> bool" where
  "is_alloc_frame d = (frame_size d \<noteq> 0xFFFF \<and> frame_size d AND 2 \<noteq> 0)"

text \<open>\<^verbatim>\<open>int nallocs = *alloc_len++\<close>: the count byte; the encoded sizes follow it.\<close>

definition nallocs :: "frame_descr \<Rightarrow> nat" where
  "nallocs d = unat (alloc_len d 0)"

definition encoded_size :: "frame_descr \<Rightarrow> nat \<Rightarrow> 8 word" where
  "encoded_size d i = alloc_len d (Suc i)"

text \<open>
  \<^verbatim>\<open>for (i = 0; i < nallocs; i++) allocsz += Whsize_wosize(Wosize_encoded_alloc_len(alloc_len[i]));\<close>
\<close>

function sum_alloc_sizes :: "runtime_env \<Rightarrow> frame_descr \<Rightarrow> nat \<Rightarrow> nat \<Rightarrow> intnat \<Rightarrow> intnat" where
  "sum_alloc_sizes env d n i allocsz =
     (if i < n
      then sum_alloc_sizes env d n (i + 1)
             (allocsz + Whsize_wosize (Wosize_encoded_alloc_len env (encoded_size d i)))
      else allocsz)"
  by pat_completeness auto
termination
  by (relation "measure (\<lambda>(env, d, n, i, allocsz). n - i)") auto

declare sum_alloc_sizes.simps [simp del]

text \<open>The value of \<^verbatim>\<open>allocsz\<close> after the loop and \<^verbatim>\<open>allocsz -= 1\<close>, and \<^verbatim>\<open>whsize\<close>.\<close>

definition total_allocsz :: "runtime_env \<Rightarrow> frame_descr \<Rightarrow> intnat" where
  "total_allocsz env d = sum_alloc_sizes env d (nallocs d) 0 0 - 1"

definition total_whsize :: "runtime_env \<Rightarrow> frame_descr \<Rightarrow> intnat" where
  "total_whsize env d = Whsize_wosize (total_allocsz env d)"

text \<open>A call of an external entry point, noted in the log.\<close>

definition call_handle_gc_interrupt :: "runtime_env \<Rightarrow> caml_domain_state \<Rightarrow> caml_domain_state" where
  "call_handle_gc_interrupt env s =
     (caml_handle_gc_interrupt env s)\<lparr>ext_calls := ext_calls s @ [Handle_gc_interrupt]\<rparr>"

definition call_process_pending_signals :: "runtime_env \<Rightarrow> caml_domain_state \<Rightarrow> caml_domain_state" where
  "call_process_pending_signals env s =
     (caml_process_pending_signals env s)\<lparr>ext_calls := ext_calls s @ [Process_pending_signals]\<rparr>"

text \<open>One pass of the loop body.\<close>

definition interrupt_pass :: "runtime_env \<Rightarrow> caml_domain_state \<Rightarrow> caml_domain_state" where
  "interrupt_pass env s = call_process_pending_signals env (call_handle_gc_interrupt env s)"

text \<open>Pointer arithmetic on \<^verbatim>\<open>young_ptr\<close>: \<^verbatim>\<open>p + n\<close> moves the address by \<open>n\<close> objects.\<close>

definition ptr_add :: "runtime_env \<Rightarrow> uintnat \<Rightarrow> intnat \<Rightarrow> uintnat" where
  "ptr_add env p n = p + sizeof_value env * n"

definition ptr_sub :: "runtime_env \<Rightarrow> uintnat \<Rightarrow> intnat \<Rightarrow> uintnat" where
  "ptr_sub env p n = p - sizeof_value env * n"

text \<open>The loop condition
  \<^verbatim>\<open>(uintnat)(Caml_state->young_ptr - whsize) <= Caml_state->young_limit\<close>.\<close>

definition no_room :: "runtime_env \<Rightarrow> intnat \<Rightarrow> caml_domain_state \<Rightarrow> bool" where
  "no_room env whsize s = (ptr_sub env (young_ptr s) whsize \<le> young_limit s)"

text \<open>The \<^verbatim>\<open>do { ... } while (...)\<close> loop. It has no bound on its iterations, so not
  returning is the value \<open>None\<close>.\<close>

partial_function (option) retry_loop ::
  "runtime_env \<Rightarrow> intnat \<Rightarrow> caml_domain_state \<Rightarrow> caml_domain_state option"
where
  "retry_loop env whsize s =
     (if no_room env whsize (interrupt_pass env s)
      then retry_loop env whsize (interrupt_pass env s)
      else Some (interrupt_pass env s))"

declare retry_loop.simps [code]

text \<open>What the handler does once the probe loop has produced the descriptor \<open>d\<close>.\<close>

definition handle_frame ::
  "runtime_env \<Rightarrow> frame_descr \<Rightarrow> caml_domain_state \<Rightarrow> (fault + caml_domain_state) option"
where
  "handle_frame env d s =
     (if debug_runtime env \<and> \<not> is_alloc_frame d then Some (Inl Assertion_failed)
      else if nallocs d = 0 then
        Some (Inr (call_process_pending_signals env (call_handle_gc_interrupt env s)))
      else
        (case retry_loop env (total_whsize env d)
                (s\<lparr>young_ptr := ptr_add env (young_ptr s) (total_whsize env d)\<rparr>) of
           None \<Rightarrow> None
         | Some s' \<Rightarrow>
             Some (Inr (s'\<lparr>young_ptr := ptr_sub env (young_ptr s') (total_whsize env d)\<rparr>))))"

text \<open>The probe loop as the handler starts it: \<^verbatim>\<open>retaddr = *(uintnat* )sp\<close> and
  \<^verbatim>\<open>h = Hash_retaddr(retaddr, fds.mask)\<close>.\<close>

definition frame_of_call_site ::
  "runtime_env \<Rightarrow> caml_frame_descrs \<Rightarrow> caml_domain_state \<Rightarrow> (fault + frame_descr) option"
where
  "frame_of_call_site env fds s =
     find_frame_descr (descriptors fds) (mask_fds fds) (word_at_sp s)
       (Hash_retaddr env (word_at_sp s) (mask_fds fds))"

definition caml_garbage_collection ::
  "runtime_env \<Rightarrow> caml_frame_descrs \<Rightarrow> caml_domain_state \<Rightarrow> (fault + caml_domain_state) option"
where
  "caml_garbage_collection env fds s =
     (case frame_of_call_site env fds s of
        None \<Rightarrow> None
      | Some (Inl f) \<Rightarrow> Some (Inl f)
      | Some (Inr d) \<Rightarrow> handle_frame env d s)"

subsection \<open>The frame-descriptor table as an open-addressed hash table\<close>

text \<open>A return address is present when some slot holds a descriptor with that key.\<close>

definition present :: "caml_frame_descrs \<Rightarrow> uintnat \<Rightarrow> bool" where
  "present fds ra =
     list_ex (\<lambda>e. case e of None \<Rightarrow> False | Some d \<Rightarrow> retaddr d = ra) (descriptors fds)"

text \<open>The table has a power-of-two size and its mask is that size minus one.\<close>

definition pow2_sized :: "caml_frame_descrs \<Rightarrow> bool" where
  "pow2_sized fds =
     (\<exists>k\<le>64. mask_fds fds = mask k \<and> length (descriptors fds) = 2 ^ k)"

text \<open>
  Open addressing with linear probing, step 1: the descriptor in slot \<open>p\<close> was stored
  at the first free slot met from the hash of its key, going up by one and wrapping at
  the table size, so every slot from the hash position up to \<open>p\<close> is occupied.
\<close>

definition probe_path_occupied :: "runtime_env \<Rightarrow> caml_frame_descrs \<Rightarrow> nat \<Rightarrow> frame_descr \<Rightarrow> bool" where
  "probe_path_occupied env fds p d =
     (let n = length (descriptors fds);
          h = unat (Hash_retaddr env (retaddr d) (mask_fds fds))
      in h < n \<and>
         (\<forall>i \<in> {0 ..< (p + n - h) mod n}. descriptors fds ! ((h + i) mod n) \<noteq> None))"

definition open_addressed :: "runtime_env \<Rightarrow> caml_frame_descrs \<Rightarrow> bool" where
  "open_addressed env fds =
     (pow2_sized fds \<and>
      (\<forall>p \<in> {0 ..< length (descriptors fds)}.
         case descriptors fds ! p of
           None \<Rightarrow> True
         | Some d \<Rightarrow> probe_path_occupied env fds p d))"

text \<open>
  Modelled from the spec: how the table is filled, which is done in another compilation
  unit. Open addressing with linear probing of step 1: a descriptor goes to the first free
  slot met from the hash of its return address, going up by one and wrapping at the table
  size. \<open>first_free_slot\<close> is that slot, if the table has a free one.
\<close>

definition first_free_slot :: "frame_descr option list \<Rightarrow> nat \<Rightarrow> nat option" where
  "first_free_slot descs h =
     map_option (\<lambda>j. (h + j) mod length descs)
       (List.find (\<lambda>j. case descs ! ((h + j) mod length descs) of None \<Rightarrow> True | Some d \<Rightarrow> False)
          [0 ..< length descs])"

definition insert_descr :: "runtime_env \<Rightarrow> caml_frame_descrs \<Rightarrow> frame_descr \<Rightarrow> caml_frame_descrs option" where
  "insert_descr env fds d =
     (case first_free_slot (descriptors fds) (unat (Hash_retaddr env (retaddr d) (mask_fds fds))) of
        None \<Rightarrow> None
      | Some p \<Rightarrow>
          Some (fds\<lparr>num_descr := num_descr fds + 1,
                    descriptors := (descriptors fds)[p := Some d]\<rparr>))"

text \<open>Filling an empty table of \<open>2 ^ k\<close> slots with a list of descriptors.\<close>

fun insert_all :: "runtime_env \<Rightarrow> caml_frame_descrs \<Rightarrow> frame_descr list \<Rightarrow> caml_frame_descrs option" where
  "insert_all env fds [] = Some fds"
| "insert_all env fds (d # ds) =
     (case insert_descr env fds d of
        None \<Rightarrow> None
      | Some fds' \<Rightarrow> insert_all env fds' ds)"

definition empty_table :: "nat \<Rightarrow> caml_frame_descrs" where
  "empty_table k = \<lparr>num_descr = 0, mask_fds = mask k, descriptors = replicate (2 ^ k) None\<rparr>"

subsection \<open>handle\_signal and caml\_set\_signal\_action\<close>

text \<open>
  A signal disposition is a handler address: the two special values, the runtime's
  trampoline \<^verbatim>\<open>handle_signal\<close>, or a handler installed by other code.
\<close>

datatype signal_handler = SIG_DFL | SIG_IGN | Handle_signal | Foreign_handler nat

text \<open>
  The state the two functions work on: \<^verbatim>\<open>errno\<close>, the dispositions held by the
  operating system, and the Pending-Signal Set.
\<close>

record signal_state =
  errno :: int
  disposition :: "int \<Rightarrow> signal_handler"
  pending_signals :: "int set"

text \<open>
  The platform: which of \<^verbatim>\<open>POSIX_SIGNALS\<close> and \<^verbatim>\<open>BSD_SIGNALS\<close> are defined, the
  constant \<^verbatim>\<open>NSIG\<close>, the signal numbers whose disposition the operating system lets a
  process set, the error code it stores otherwise, and \<^verbatim>\<open>caml_record_signal\<close> (defined
  in another compilation unit).
\<close>

record signal_env =
  POSIX_SIGNALS :: bool
  BSD_SIGNALS :: bool
  NSIG :: int
  os_accepts :: "int \<Rightarrow> bool"
  EINVAL :: int
  caml_record_signal :: "int \<Rightarrow> signal_state \<Rightarrow> signal_state"

text \<open>
  Modelled from the spec: the operating system's signal-registration primitives, which
  read and replace a disposition in one step. On error \<^verbatim>\<open>sigaction\<close> returns \<open>-1\<close>
  and \<^verbatim>\<open>signal\<close> returns \<^verbatim>\<open>SIG_ERR\<close>, both \<open>None\<close> here, and both store an error code
  in \<^verbatim>\<open>errno\<close>; otherwise the result is the previous handler. The handler is always
  registered with an empty mask and no flags, which are not part of the state.
\<close>

definition sigaction ::
  "signal_env \<Rightarrow> int \<Rightarrow> signal_handler \<Rightarrow> signal_state \<Rightarrow> signal_handler option \<times> signal_state"
where
  "sigaction p signo act st =
     (if os_accepts p signo
      then (Some (disposition st signo), st\<lparr>disposition := (disposition st)(signo := act)\<rparr>)
      else (None, st\<lparr>errno := EINVAL p\<rparr>))"

definition signal :: "signal_env \<Rightarrow> int \<Rightarrow> signal_handler \<Rightarrow> signal_state \<Rightarrow> signal_handler option \<times> signal_state"
where
  "signal p signo act st =
     (if os_accepts p signo
      then (Some (disposition st signo), st\<lparr>disposition := (disposition st)(signo := act)\<rparr>)
      else (None, st\<lparr>errno := EINVAL p\<rparr>))"

definition handle_signal :: "signal_env \<Rightarrow> int \<Rightarrow> signal_state \<Rightarrow> signal_state" where
  "handle_signal p sig st =
     (let saved_errno = errno st;
          st1 = (if \<not> POSIX_SIGNALS p \<and> \<not> BSD_SIGNALS p
                 then snd (signal p sig Handle_signal st) else st)
      in if sig < 0 \<or> sig \<ge> NSIG p then st1
         else (caml_record_signal p sig st1)\<lparr>errno := saved_errno\<rparr>)"

text \<open>The \<^verbatim>\<open>switch\<close> on the action code.\<close>

definition handler_of_action :: "int \<Rightarrow> signal_handler" where
  "handler_of_action action =
     (if action = 0 then SIG_DFL else if action = 1 then SIG_IGN else Handle_signal)"

text \<open>The final \<^verbatim>\<open>if\<close> chain on the previous handler.\<close>

definition code_of_oldact :: "signal_handler \<Rightarrow> int" where
  "code_of_oldact oldact =
     (if oldact = Handle_signal then 2 else if oldact = SIG_IGN then 1 else 0)"

definition caml_set_signal_action :: "signal_env \<Rightarrow> int \<Rightarrow> int \<Rightarrow> signal_state \<Rightarrow> int \<times> signal_state" where
  "caml_set_signal_action p signo action st =
     (let act = handler_of_action action in
      if POSIX_SIGNALS p then
        (case sigaction p signo act st of
           (None, st') \<Rightarrow> (- 1, st')
         | (Some oldact, st') \<Rightarrow> (code_of_oldact oldact, st'))
      else
        (case signal p signo act st of
           (None, st') \<Rightarrow> (- 1, st')
         | (Some oldact, st') \<Rightarrow> (code_of_oldact oldact, st')))"

subsection \<open>Concrete platforms, tables and states\<close>

text \<open>
  The macros as the runtime's headers define them for the native-code compiler:
  \<^verbatim>\<open>Hash_retaddr(addr, mask) = ((uintnat)(addr) >> 3) & (mask)\<close> and
  \<^verbatim>\<open>Wosize_encoded_alloc_len(n) = (n) + 1\<close>; the heap cursor points to 8-byte words.
  The collector of this example frees five words on each pass.
\<close>

definition ex_env :: runtime_env where
  "ex_env = \<lparr>Hash_retaddr = (\<lambda>addr m. drop_bit 3 addr AND m),
             Wosize_encoded_alloc_len = (\<lambda>n. ucast n + 1),
             debug_runtime = True,
             sizeof_value = 8,
             caml_handle_gc_interrupt = (\<lambda>s. s\<lparr>young_ptr := young_ptr s + 40\<rparr>),
             caml_process_pending_signals = (\<lambda>s. s\<lparr>extern_state := 0\<rparr>)\<rparr>"

text \<open>The same platform with a collector that leaves the heap cursor where it is.\<close>

definition ex_quiet_env :: runtime_env where
  "ex_quiet_env = ex_env\<lparr>caml_handle_gc_interrupt := (\<lambda>s. s\<lparr>extern_state := Suc (extern_state s)\<rparr>)\<rparr>"

text \<open>A call site that combines two allocations, of three and of five fields.\<close>

definition ex_alloc_descr :: frame_descr where
  "ex_alloc_descr = \<lparr>retaddr = 0x4038, frame_size = 0x12, num_live = 1, live_ofs = [8],
                      alloc_len = (\<lambda>i. if i = 0 then 2 else if i = 1 then 2 else if i = 2 then 4 else 0)\<rparr>"

text \<open>A poll site, flagged as an allocation frame, and one that is not.\<close>

definition ex_poll_descr :: frame_descr where
  "ex_poll_descr = \<lparr>retaddr = 0x4018, frame_size = 0x22, num_live = 0, live_ofs = [],
                     alloc_len = (\<lambda>i. 0)\<rparr>"

definition ex_unflagged_poll_descr :: frame_descr where
  "ex_unflagged_poll_descr = \<lparr>retaddr = 0x4010, frame_size = 0x20, num_live = 0, live_ofs = [],
                               alloc_len = (\<lambda>i. 0)\<rparr>"

text \<open>A table of four slots: \<open>0x4018\<close> and \<open>0x4038\<close> both hash to slot 3, and the second
  wrapped around to slot 0.\<close>

definition ex_fds :: caml_frame_descrs where
  "ex_fds = \<lparr>num_descr = 3, mask_fds = 3,
             descriptors = [Some ex_alloc_descr, None, Some ex_unflagged_poll_descr, Some ex_poll_descr]\<rparr>"

text \<open>A table of two slots with no free slot.\<close>

definition ex_full_fds :: caml_frame_descrs where
  "ex_full_fds = \<lparr>num_descr = 2, mask_fds = 1,
                  descriptors = [Some ex_unflagged_poll_descr, Some ex_poll_descr]\<rparr>"

text \<open>The domain state when compiled code calls in from the site \<open>ra\<close>: the limit is
  \<open>0x10000\<close>, and the cursor, two words above it before the attempt, has been moved
  down by the ten words requested.\<close>

definition ex_state :: "uintnat \<Rightarrow> caml_domain_state" where
  "ex_state ra = \<lparr>young_ptr = 0xFFC0, young_limit = 0x10000, word_at_sp = ra,
                  extern_state = 7, ext_calls = []\<rparr>"

text \<open>The state in which the handler returns to the site \<open>0x4038\<close>, after two passes.\<close>

definition ex_state_on_return :: caml_domain_state where
  "ex_state_on_return = \<lparr>young_ptr = 0x10010, young_limit = 0x10000, word_at_sp = 0x4038,
                          extern_state = 0,
                          ext_calls = [Handle_gc_interrupt, Process_pending_signals,
                                       Handle_gc_interrupt, Process_pending_signals]\<rparr>"

text \<open>A platform with POSIX signals, and one with neither POSIX nor BSD signals whose
  \<^verbatim>\<open>signal\<close> knows seven signal numbers.\<close>

definition ex_record_signal :: "int \<Rightarrow> signal_state \<Rightarrow> signal_state" where
  "ex_record_signal sig st = st\<lparr>errno := 11, pending_signals := insert sig (pending_signals st)\<rparr>"

definition ex_posix :: signal_env where
  "ex_posix = \<lparr>POSIX_SIGNALS = True, BSD_SIGNALS = False, NSIG = 65,
               os_accepts = (\<lambda>n. 1 \<le> n \<and> n \<le> 64 \<and> n \<noteq> 9 \<and> n \<noteq> 19),
               EINVAL = 22, caml_record_signal = ex_record_signal\<rparr>"

definition ex_ansi :: signal_env where
  "ex_ansi = \<lparr>POSIX_SIGNALS = False, BSD_SIGNALS = False, NSIG = 23,
              os_accepts = (\<lambda>n. n = 2 \<or> n = 4 \<or> n = 8 \<or> n = 11 \<or> n = 15 \<or> n = 21 \<or> n = 22),
              EINVAL = 22, caml_record_signal = ex_record_signal\<rparr>"

text \<open>A platform with neither POSIX nor BSD signals and no \<^verbatim>\<open>NSIG\<close> of its own, so that
  \<^verbatim>\<open>NSIG\<close> is the 64 of this file, whose \<^verbatim>\<open>signal\<close> accepts the numbers 1 to 64.\<close>

definition ex_fallback :: signal_env where
  "ex_fallback = \<lparr>POSIX_SIGNALS = False, BSD_SIGNALS = False, NSIG = 64,
                  os_accepts = (\<lambda>n. 1 \<le> n \<and> n \<le> 64),
                  EINVAL = 22, caml_record_signal = ex_record_signal\<rparr>"

definition ex_signal_state :: signal_state where
  "ex_signal_state = \<lparr>errno = 0, disposition = (\<lambda>n. SIG_DFL), pending_signals = {}\<rparr>"

section \<open>The probe loop\<close>

lemma unat_and_mask_mod:
  fixes w :: uintnat
  shows "unat (w AND mask k) = unat w mod 2 ^ k"
proof -
  have "unat (w AND mask k) = take_bit k (unat w)"
    by (simp only: take_bit_eq_mask [symmetric] unsigned_take_bit_eq)
  also have "\<dots> = unat w mod 2 ^ k"
    by (rule take_bit_eq_mod)
  finally show ?thesis .
qed

lemma unat_next_slot:
  fixes h :: uintnat
  assumes "k \<le> 64"
  shows "unat ((h + 1) AND mask k) = (unat h + 1) mod 2 ^ k"
proof -
  have dvd: "(2::nat) ^ k dvd 2 ^ LENGTH(64)"
    using assms by (intro le_imp_power_dvd) simp
  have "unat ((h + 1) AND mask k) = unat (h + 1) mod 2 ^ k"
    by (rule unat_and_mask_mod)
  also have "unat (h + 1) = (unat h + unat (1 :: uintnat)) mod 2 ^ LENGTH(64)"
    by (rule unat_word_ariths(1))
  also have "(unat h + unat (1 :: uintnat)) mod 2 ^ LENGTH(64) mod 2 ^ k =
      (unat h + unat (1 :: uintnat)) mod 2 ^ k"
    by (rule mod_mod_cancel [OF dvd])
  finally show ?thesis
    by simp
qed

lemma find_frame_descr_step:
  assumes "unat h < length descs" and "descs ! unat h = Some e" and "retaddr e \<noteq> ra"
  shows "find_frame_descr descs m ra h = find_frame_descr descs m ra ((h + 1) AND m)"
  using assms by (subst find_frame_descr.simps) simp

lemma find_frame_descr_hit:
  assumes "unat h < length descs" and "descs ! unat h = Some d" and "retaddr d = ra"
  shows "find_frame_descr descs m ra h = Some (Inr d)"
  using assms by (subst find_frame_descr.simps) simp

lemma find_frame_descr_null:
  assumes "unat h < length descs" and "descs ! unat h = None"
  shows "find_frame_descr descs m ra h = Some (Inl Memory_fault)"
  using assms by (subst find_frame_descr.simps) simp

lemma find_frame_descr_skip:
  fixes h :: uintnat
  assumes size: "length descs = 2 ^ k" "k \<le> 64" and h: "unat h < 2 ^ k"
    and busy: "\<forall>i<j. \<exists>e. descs ! ((unat h + i) mod 2 ^ k) = Some e \<and> retaddr e \<noteq> ra"
  shows "\<exists>h'. unat h' = (unat h + j) mod 2 ^ k
            \<and> find_frame_descr descs (mask k) ra h = find_frame_descr descs (mask k) ra h'"
  using busy
proof (induction j)
  case 0
  from h have "unat h = (unat h + 0) mod 2 ^ k"
    by simp
  then show ?case by blast
next
  case (Suc j)
  then obtain h' where h': "unat h' = (unat h + j) mod 2 ^ k"
    "find_frame_descr descs (mask k) ra h = find_frame_descr descs (mask k) ra h'"
    by auto
  from Suc.prems obtain e where e: "descs ! ((unat h + j) mod 2 ^ k) = Some e" "retaddr e \<noteq> ra"
    by auto
  have "unat h' < length descs"
    using h'(1) size by simp
  with e h'(1) have "find_frame_descr descs (mask k) ra h' =
      find_frame_descr descs (mask k) ra ((h' + 1) AND mask k)"
    by (intro find_frame_descr_step) simp_all
  moreover have "unat ((h' + 1) AND mask k) = (unat h + Suc j) mod 2 ^ k"
    using unat_next_slot [OF size(2), of h'] h'(1) by (simp add: mod_Suc_eq)
  ultimately show ?case
    using h'(2) by metis
qed

lemma find_frame_descr_result:
  assumes "find_frame_descr descs m ra h = Some r"
  shows "case r of Inl f \<Rightarrow> f = Memory_fault
                 | Inr d \<Rightarrow> Some d \<in> set descs \<and> retaddr d = ra"
proof (rule find_frame_descr.raw_induct [where P = "\<lambda>descs m ra h r.
          case r of Inl f \<Rightarrow> f = Memory_fault | Inr d \<Rightarrow> Some d \<in> set descs \<and> retaddr d = ra",
        OF _ assms])
  fix find :: "frame_descr option list \<Rightarrow> uintnat \<Rightarrow> uintnat \<Rightarrow> uintnat \<Rightarrow> (fault + frame_descr) option"
    and descs m ra h r
  assume IH: "\<And>descs m ra h r. find descs m ra h = Some r \<Longrightarrow>
          (case r of Inl f \<Rightarrow> f = Memory_fault | Inr d \<Rightarrow> Some d \<in> set descs \<and> retaddr d = ra)"
    and body: "(if unat h < length descs
       then case descs ! unat h of None \<Rightarrow> Some (Inl Memory_fault)
            | Some d \<Rightarrow> if retaddr d = ra then Some (Inr d) else find descs m ra ((h + 1) AND m)
       else Some (Inl Memory_fault)) = Some r"
  show "case r of Inl f \<Rightarrow> f = Memory_fault | Inr d \<Rightarrow> Some d \<in> set descs \<and> retaddr d = ra"
  proof (cases "unat h < length descs")
    case False
    with body show ?thesis by auto
  next
    case True
    show ?thesis
    proof (cases "descs ! unat h")
      case None
      with True body show ?thesis by auto
    next
      case (Some d)
      show ?thesis
      proof (cases "retaddr d = ra")
        case True
        with \<open>unat h < length descs\<close> Some body show ?thesis
          by (auto simp: in_set_conv_nth)
      next
        case False
        with \<open>unat h < length descs\<close> Some body have "find descs m ra ((h + 1) AND m) = Some r"
          by simp
        then show ?thesis by (rule IH)
      qed
    qed
  qed
qed

lemma find_frame_descr_fault:
  assumes "find_frame_descr descs m ra h = Some r"
  shows "unat m < length descs \<longrightarrow> unat h < length descs \<longrightarrow> (\<forall>f. r = Inl f \<longrightarrow> None \<in> set descs)"
proof (rule find_frame_descr.raw_induct [where P = "\<lambda>descs m ra h r.
          unat m < length descs \<longrightarrow> unat h < length descs \<longrightarrow> (\<forall>f. r = Inl f \<longrightarrow> None \<in> set descs)",
        OF _ assms])
  fix find :: "frame_descr option list \<Rightarrow> uintnat \<Rightarrow> uintnat \<Rightarrow> uintnat \<Rightarrow> (fault + frame_descr) option"
    and descs m ra h r
  assume IH: "\<And>descs m ra h r. find descs m ra h = Some r \<Longrightarrow>
          unat m < length descs \<longrightarrow> unat h < length descs \<longrightarrow> (\<forall>f. r = Inl f \<longrightarrow> None \<in> set descs)"
    and body: "(if unat h < length descs
       then case descs ! unat h of None \<Rightarrow> Some (Inl Memory_fault)
            | Some d \<Rightarrow> if retaddr d = ra then Some (Inr d) else find descs m ra ((h + 1) AND m)
       else Some (Inl Memory_fault)) = Some r"
  show "unat m < length descs \<longrightarrow> unat h < length descs \<longrightarrow> (\<forall>f. r = Inl f \<longrightarrow> None \<in> set descs)"
  proof (intro impI allI)
    fix f
    assume m: "unat m < length descs" and h: "unat h < length descs" and r: "r = Inl f"
    show "None \<in> set descs"
    proof (cases "descs ! unat h")
      case None
      with h show ?thesis
        by (metis nth_mem)
    next
      case (Some d)
      with h body r have "find descs m ra ((h + 1) AND m) = Some r"
        by (simp split: if_splits)
      moreover have "unat ((h + 1) AND m) < length descs"
      proof -
        have "(h + 1) AND m \<le> m"
          by (rule word_and_le1)
        then have "unat ((h + 1) AND m) \<le> unat m"
          by (simp add: word_le_nat_alt)
        with m show ?thesis by simp
      qed
      ultimately show ?thesis
        using IH m r by blast
    qed
  qed
qed


lemma present_iff:
  "present fds ra \<longleftrightarrow> (\<exists>d. Some d \<in> set (descriptors fds) \<and> retaddr d = ra)"
  by (auto simp: present_def list_ex_iff split: option.splits)

lemma slot_reached:
  assumes "h < n" and "p < n"
  shows "(h + (p + n - h) mod n) mod n = (p :: nat)"
proof -
  have "(h + (p + n - h) mod n) mod n = (h + (p + n - h)) mod n"
    by (rule mod_add_right_eq)
  also from assms have "h + (p + n - h) = p + n"
    by simp
  finally show ?thesis
    using assms by simp
qed

text \<open>From slot \<open>h\<close> the probe reaches the first slot that satisfies \<open>stop\<close>, provided the
  slots before it hold descriptors with other keys.\<close>

lemma find_frame_descr_first:
  fixes h :: uintnat
  assumes size: "length descs = 2 ^ k" "k \<le> 64" and h: "unat h < 2 ^ k"
    and stop: "stop (descs ! ((unat h + j0) mod 2 ^ k))"
    and busy: "\<And>i. i < j0 \<Longrightarrow> \<not> stop (descs ! ((unat h + i) mod 2 ^ k)) \<Longrightarrow>
                 \<exists>e. descs ! ((unat h + i) mod 2 ^ k) = Some e \<and> retaddr e \<noteq> ra"
  shows "\<exists>h'. unat h' < length descs \<and> stop (descs ! unat h')
            \<and> find_frame_descr descs (mask k) ra h = find_frame_descr descs (mask k) ra h'"
proof -
  define j where "j = (LEAST j. stop (descs ! ((unat h + j) mod 2 ^ k)))"
  have j: "stop (descs ! ((unat h + j) mod 2 ^ k))"
    unfolding j_def using stop by (rule LeastI)
  have le: "j \<le> j0"
    unfolding j_def using stop by (rule Least_le)
  have "\<forall>i<j. \<exists>e. descs ! ((unat h + i) mod 2 ^ k) = Some e \<and> retaddr e \<noteq> ra"
  proof (intro allI impI)
    fix i assume "i < j"
    then have "\<not> stop (descs ! ((unat h + i) mod 2 ^ k))"
      unfolding j_def by (rule not_less_Least)
    moreover from \<open>i < j\<close> le have "i < j0"
      by simp
    ultimately show "\<exists>e. descs ! ((unat h + i) mod 2 ^ k) = Some e \<and> retaddr e \<noteq> ra"
      by (rule busy [rotated])
  qed
  from find_frame_descr_skip [OF size h this] obtain h'
    where h': "unat h' = (unat h + j) mod 2 ^ k"
      "find_frame_descr descs (mask k) ra h = find_frame_descr descs (mask k) ra h'"
    by blast
  from h'(1) size have "unat h' < length descs"
    by simp
  moreover from h'(1) j have "stop (descs ! unat h')"
    by simp
  ultimately show ?thesis
    using h'(2) by blast
qed

lemma lookup_present:
  assumes oa: "open_addressed env fds" and pr: "present fds ra"
  shows "\<exists>d. find_frame_descr (descriptors fds) (mask_fds fds) ra
                (Hash_retaddr env ra (mask_fds fds)) = Some (Inr d) \<and> retaddr d = ra"
proof -
  let ?descs = "descriptors fds"
  let ?h = "Hash_retaddr env ra (mask_fds fds)"
  from oa obtain k where k: "k \<le> 64" "mask_fds fds = mask k" "length ?descs = 2 ^ k"
    by (auto simp: open_addressed_def pow2_sized_def)
  from pr obtain p d0 where p: "p < length ?descs" "?descs ! p = Some d0" "retaddr d0 = ra"
    by (auto simp: present_iff in_set_conv_nth)
  with oa have "probe_path_occupied env fds p d0"
    by (auto simp: open_addressed_def split: option.splits)
  with p(3) have h: "unat ?h < length ?descs"
    and path: "\<forall>i \<in> {0 ..< (p + length ?descs - unat ?h) mod length ?descs}.
                 ?descs ! ((unat ?h + i) mod length ?descs) \<noteq> None"
    by (simp_all add: probe_path_occupied_def Let_def)
  let ?j0 = "(p + 2 ^ k - unat ?h) mod 2 ^ k"
  let ?stop = "\<lambda>e. case e of None \<Rightarrow> False | Some d \<Rightarrow> retaddr d = ra"
  have "(unat ?h + ?j0) mod 2 ^ k = p"
    using h p(1) k(3) slot_reached [of "unat ?h" "2 ^ k" p] by simp
  with p have stop: "?stop (?descs ! ((unat ?h + ?j0) mod 2 ^ k))"
    by simp
  have "\<exists>h'. unat h' < length ?descs \<and> ?stop (?descs ! unat h')
            \<and> find_frame_descr ?descs (mask k) ra ?h = find_frame_descr ?descs (mask k) ra h'"
  proof (rule find_frame_descr_first [where stop = ?stop and ?j0.0 = ?j0, OF k(3) k(1)])
    show "unat ?h < 2 ^ k"
      using h k(3) by simp
    show "?stop (?descs ! ((unat ?h + ?j0) mod 2 ^ k))"
      by (rule stop)
    fix i assume "i < ?j0" and ns: "\<not> ?stop (?descs ! ((unat ?h + i) mod 2 ^ k))"
    with path k(3) have "?descs ! ((unat ?h + i) mod 2 ^ k) \<noteq> None"
      by simp
    with ns show "\<exists>e. ?descs ! ((unat ?h + i) mod 2 ^ k) = Some e \<and> retaddr e \<noteq> ra"
      by (auto split: option.splits)
  qed
  then obtain h' d where "unat h' < length ?descs" "?descs ! unat h' = Some d" "retaddr d = ra"
    "find_frame_descr ?descs (mask k) ra ?h = find_frame_descr ?descs (mask k) ra h'"
    by (auto split: option.splits)
  then show ?thesis
    using find_frame_descr_hit [of h' ?descs d ra "mask k"] k(2) by auto
qed

lemma absent_not_found:
  assumes "\<not> present fds ra"
  shows "find_frame_descr (descriptors fds) m ra h \<noteq> Some (Inr d)"
proof
  assume "find_frame_descr (descriptors fds) m ra h = Some (Inr d)"
  from find_frame_descr_result [OF this] assms show False
    by (auto simp: present_iff)
qed

lemma absent_full_diverges:
  assumes "\<not> present fds ra" and "None \<notin> set (descriptors fds)"
    and "unat (mask_fds fds) < length (descriptors fds)"
    and "unat h < length (descriptors fds)"
  shows "find_frame_descr (descriptors fds) (mask_fds fds) ra h = None"
proof (cases "find_frame_descr (descriptors fds) (mask_fds fds) ra h")
  case None
  then show ?thesis .
next
  case (Some r)
  show ?thesis
  proof (cases r)
    case (Inl f)
    with Some find_frame_descr_fault [OF Some] assms show ?thesis
      by blast
  next
    case (Inr d)
    with Some absent_not_found [OF assms(1)] show ?thesis
      by blast
  qed
qed

lemma absent_null_faults:
  assumes ab: "\<not> present fds ra" and null: "None \<in> set (descriptors fds)"
    and sz: "pow2_sized fds" and h: "unat h < length (descriptors fds)"
  shows "find_frame_descr (descriptors fds) (mask_fds fds) ra h = Some (Inl Memory_fault)"
proof -
  let ?descs = "descriptors fds"
  from sz obtain k where k: "k \<le> 64" "mask_fds fds = mask k" "length ?descs = 2 ^ k"
    by (auto simp: pow2_sized_def)
  from null obtain p where p: "p < length ?descs" "?descs ! p = None"
    by (auto simp: in_set_conv_nth)
  let ?j0 = "(p + 2 ^ k - unat h) mod 2 ^ k"
  let ?stop = "\<lambda>e. e = (None :: frame_descr option)"
  have reach: "(unat h + ?j0) mod 2 ^ k = p"
    using h p(1) k(3) slot_reached [of "unat h" "2 ^ k" p] by simp
  have "\<exists>h'. unat h' < length ?descs \<and> ?stop (?descs ! unat h')
            \<and> find_frame_descr ?descs (mask k) ra h = find_frame_descr ?descs (mask k) ra h'"
  proof (rule find_frame_descr_first [where stop = ?stop and ?j0.0 = ?j0, OF k(3) k(1)])
    show "unat h < 2 ^ k"
      using h k(3) by simp
    show "?descs ! ((unat h + ?j0) mod 2 ^ k) = None"
      using reach p(2) by simp
    fix i assume "i < ?j0" and ns: "?descs ! ((unat h + i) mod 2 ^ k) \<noteq> None"
    then obtain e where e: "?descs ! ((unat h + i) mod 2 ^ k) = Some e"
      by auto
    have "(unat h + i) mod 2 ^ k < length ?descs"
      using k(3) by simp
    with e have "Some e \<in> set ?descs"
      by (metis nth_mem)
    with ab have "retaddr e \<noteq> ra"
      by (auto simp: present_iff)
    with e show "\<exists>e. ?descs ! ((unat h + i) mod 2 ^ k) = Some e \<and> retaddr e \<noteq> ra"
      by blast
  qed
  then obtain h' where "unat h' < length ?descs" "?descs ! unat h' = None"
    "find_frame_descr ?descs (mask k) ra h = find_frame_descr ?descs (mask k) ra h'"
    by auto
  then show ?thesis
    using find_frame_descr_null [of h' ?descs "mask k" ra] k(2) by simp
qed

section \<open>The allocation decoder\<close>

lemma sum_alloc_sizes_eq:
  "sum_alloc_sizes env d n i a =
     a + (\<Sum>j = i..<n. Whsize_wosize (Wosize_encoded_alloc_len env (encoded_size d j)))"
proof (induction env d n i a rule: sum_alloc_sizes.induct)
  case (1 env d n i a)
  show ?case
  proof (cases "i < n")
    case True
    with "1" show ?thesis
      by (subst sum_alloc_sizes.simps) (simp add: sum.atLeast_Suc_lessThan add.assoc)
  next
    case False
    then show ?thesis
      by (subst sum_alloc_sizes.simps) simp
  qed
qed

lemma total_allocsz_eq:
  "total_allocsz env d =
     (\<Sum>j < nallocs d. Whsize_wosize (Wosize_encoded_alloc_len env (encoded_size d j))) - 1"
  by (simp add: total_allocsz_def sum_alloc_sizes_eq atLeast0LessThan)

text \<open>With the encoding of the runtime's headers, where a byte \<open>n\<close> stands for \<open>n + 1\<close>
  fields, the sum stays far below the word size: the total is the same number when read
  as an integer.\<close>

lemma unat_sum_no_wrap:
  fixes f :: "nat \<Rightarrow> uintnat"
  assumes "\<forall>j<n. unat (f j) \<le> B" and "n * B < 2 ^ 64"
  shows "unat (\<Sum>j<n. f j) = (\<Sum>j<n. unat (f j))"
  using assms
proof (induction n)
  case 0
  show ?case by simp
next
  case (Suc n)
  then have IH: "unat (\<Sum>j<n. f j) = (\<Sum>j<n. unat (f j))"
    by simp
  have "(\<Sum>j<n. unat (f j)) \<le> n * B"
    using Suc.prems(1) sum_bounded_above [of "{..<n}" "\<lambda>j. unat (f j)" B] by simp
  moreover from Suc.prems have "unat (f n) \<le> B"
    by simp
  ultimately have "unat (\<Sum>j<n. f j) + unat (f n) < 2 ^ LENGTH(64)"
    using IH Suc.prems(2) by simp
  then have "unat ((\<Sum>j<n. f j) + f n) = unat (\<Sum>j<n. f j) + unat (f n)"
    by (simp only: unat_add_lem)
  with IH show ?case
    by simp
qed

lemma unat_whsize_of_encoded:
  fixes b :: "8 word"
  shows "unat (Whsize_wosize (ucast b + 1) :: uintnat) = unat b + 2"
proof -
  have "unat b < 2 ^ 8"
    using unsigned_less [of b] by simp
  then have small: "unat b + 2 < 2 ^ LENGTH(64)"
    by simp
  have "(Whsize_wosize (ucast b + 1) :: uintnat) = word_of_nat (unat b + 2)"
    by (simp add: Whsize_wosize_def)
  then have "unat (Whsize_wosize (ucast b + 1) :: uintnat) = (unat b + 2) mod 2 ^ LENGTH(64)"
    by (simp only: unat_of_nat)
  with small show ?thesis
    by (simp only: mod_less)
qed

lemma total_allocsz_no_wrap:
  assumes enc: "\<forall>b. Wosize_encoded_alloc_len env b = ucast b + 1" and n: "1 \<le> nallocs d"
  shows "unat (total_allocsz env d) = (\<Sum>j < nallocs d. unat (encoded_size d j) + 2) - 1"
proof -
  let ?f = "\<lambda>j. Whsize_wosize (Wosize_encoded_alloc_len env (encoded_size d j))"
  have f: "unat (?f j) = unat (encoded_size d j) + 2" for j
    using enc by (simp add: unat_whsize_of_encoded)
  have "unat (?f j) \<le> 257" for j
  proof -
    have "unat (encoded_size d j) < 256"
      using unsigned_less [of "encoded_size d j"] by simp
    with f [of j] show ?thesis
      by linarith
  qed
  then have bound: "\<forall>j < nallocs d. unat (?f j) \<le> 257"
    by blast
  have "nallocs d < 256"
    using unsigned_less [of "alloc_len d 0"] by (simp add: nallocs_def)
  then have "nallocs d * 257 < 2 ^ 64"
    by simp
  from unat_sum_no_wrap [OF bound this] f
  have sum: "unat (\<Sum>j < nallocs d. ?f j) = (\<Sum>j < nallocs d. unat (encoded_size d j) + 2)"
    by simp
  have "(\<Sum>j < nallocs d. unat (encoded_size d j) + 2) \<noteq> 0"
    using n by (cases "nallocs d") simp_all
  with sum have "(\<Sum>j < nallocs d. ?f j) \<noteq> 0"
    by (metis unat_0)
  then have "unat ((\<Sum>j < nallocs d. ?f j) - 1) = unat (\<Sum>j < nallocs d. ?f j) - 1"
    by (rule unat_minus_one)
  with sum show ?thesis
    by (simp add: total_allocsz_eq)
qed

lemma handle_frame_alloc:
  assumes "is_alloc_frame d" and "nallocs d \<noteq> 0"
  shows "handle_frame env d s =
     map_option (\<lambda>s'. Inr (s'\<lparr>young_ptr := ptr_sub env (young_ptr s') (total_whsize env d)\<rparr>))
       (retry_loop env (total_whsize env d)
          (s\<lparr>young_ptr := ptr_add env (young_ptr s) (total_whsize env d)\<rparr>))"
  using assms by (simp add: handle_frame_def split: option.split)

lemma ex_frame_of_alloc_site:
  "frame_of_call_site ex_env ex_fds (ex_state 0x4038) = Some (Inr ex_alloc_descr)"
  apply (simp add: frame_of_call_site_def ex_env_def ex_fds_def ex_state_def)
  apply (subst find_frame_descr.simps)
  apply (simp add: ex_poll_descr_def)
  apply (subst find_frame_descr.simps)
  apply (simp add: ex_alloc_descr_def)
  done

text \<open>
  C1. For a frame descriptor flagged as an allocation site whose count byte \<open>N\<close> is at
  least 1, the decoded total \<^verbatim>\<open>allocsz\<close> is the sum of the \<open>N\<close> individually decoded
  header-inclusive sizes minus one word. In particular two encoded sizes that decode to
  the header-exclusive sizes 3 and 5 give the total 9. The handler moves the heap cursor by
  that total re-expressed in header-inclusive form: forward before the retry loop and
  back after it. The arithmetic is that of machine words; \<open>total_allocsz_no_wrap\<close> gives
  the same equation on integers for the runtime's encoding.
\<close>

theorem decoded_total_is_sum_minus_one:
  assumes "is_alloc_frame d" and "1 \<le> nallocs d"
  shows "total_allocsz env d =
           (\<Sum>j < nallocs d. Whsize_wosize (Wosize_encoded_alloc_len env (encoded_size d j))) - 1
         \<and> (nallocs d = 2 \<and> Wosize_encoded_alloc_len env (encoded_size d 0) = 3
              \<and> Wosize_encoded_alloc_len env (encoded_size d 1) = 5
            \<longrightarrow> total_allocsz env d = 9)
         \<and> (frame_of_call_site env fds s = Some (Inr d) \<longrightarrow>
            caml_garbage_collection env fds s =
              map_option
                (\<lambda>s'. Inr (s'\<lparr>young_ptr :=
                              ptr_sub env (young_ptr s') (Whsize_wosize (total_allocsz env d))\<rparr>))
                (retry_loop env (Whsize_wosize (total_allocsz env d))
                   (s\<lparr>young_ptr :=
                        ptr_add env (young_ptr s) (Whsize_wosize (total_allocsz env d))\<rparr>)))"
proof (intro conjI impI)
  show "total_allocsz env d =
      (\<Sum>j < nallocs d. Whsize_wosize (Wosize_encoded_alloc_len env (encoded_size d j))) - 1"
    by (rule total_allocsz_eq)
next
  assume "nallocs d = 2 \<and> Wosize_encoded_alloc_len env (encoded_size d 0) = 3
              \<and> Wosize_encoded_alloc_len env (encoded_size d 1) = 5"
  then show "total_allocsz env d = 9"
    by (simp add: total_allocsz_eq Whsize_wosize_def lessThan_Suc numeral_2_eq_2)
next
  assume "frame_of_call_site env fds s = Some (Inr d)"
  with assms show "caml_garbage_collection env fds s =
              map_option
                (\<lambda>s'. Inr (s'\<lparr>young_ptr :=
                              ptr_sub env (young_ptr s') (Whsize_wosize (total_allocsz env d))\<rparr>))
                (retry_loop env (Whsize_wosize (total_allocsz env d))
                   (s\<lparr>young_ptr :=
                        ptr_add env (young_ptr s) (Whsize_wosize (total_allocsz env d))\<rparr>))"
    using handle_frame_alloc [of d env s]
    by (simp add: caml_garbage_collection_def total_whsize_def)
qed

theorem decoded_total_is_sum_minus_one_witness:
  "is_alloc_frame ex_alloc_descr \<and> nallocs ex_alloc_descr = 2
   \<and> Wosize_encoded_alloc_len ex_env (encoded_size ex_alloc_descr 0) = 3
   \<and> Wosize_encoded_alloc_len ex_env (encoded_size ex_alloc_descr 1) = 5
   \<and> frame_of_call_site ex_env ex_fds (ex_state 0x4038) = Some (Inr ex_alloc_descr)
   \<and> total_allocsz ex_env ex_alloc_descr = 9
   \<and> caml_garbage_collection ex_env ex_fds (ex_state 0x4038) =
       map_option (\<lambda>s'. Inr (s'\<lparr>young_ptr := ptr_sub ex_env (young_ptr s') 10\<rparr>))
         (retry_loop ex_env 10
            ((ex_state 0x4038)\<lparr>young_ptr := ptr_add ex_env (young_ptr (ex_state 0x4038)) 10\<rparr>))"
proof -
  have flagged: "is_alloc_frame ex_alloc_descr"
    by (simp add: is_alloc_frame_def ex_alloc_descr_def)
  have count: "nallocs ex_alloc_descr = 2"
    by (simp add: nallocs_def ex_alloc_descr_def)
  have sizes: "Wosize_encoded_alloc_len ex_env (encoded_size ex_alloc_descr 0) = 3"
    "Wosize_encoded_alloc_len ex_env (encoded_size ex_alloc_descr 1) = 5"
    by (simp_all add: ex_env_def encoded_size_def ex_alloc_descr_def)
  from count have "1 \<le> nallocs ex_alloc_descr"
    by simp
  note inst = decoded_total_is_sum_minus_one [OF flagged this, of ex_env ex_fds "ex_state 0x4038"]
  have nine: "total_allocsz ex_env ex_alloc_descr = 9"
    using inst count sizes by blast
  have "caml_garbage_collection ex_env ex_fds (ex_state 0x4038) =
       map_option
         (\<lambda>s'. Inr (s'\<lparr>young_ptr :=
                       ptr_sub ex_env (young_ptr s')
                         (Whsize_wosize (total_allocsz ex_env ex_alloc_descr))\<rparr>))
         (retry_loop ex_env (Whsize_wosize (total_allocsz ex_env ex_alloc_descr))
            ((ex_state 0x4038)\<lparr>young_ptr :=
                 ptr_add ex_env (young_ptr (ex_state 0x4038))
                   (Whsize_wosize (total_allocsz ex_env ex_alloc_descr))\<rparr>))"
    using inst ex_frame_of_alloc_site by blast
  then show ?thesis
    using flagged count sizes ex_frame_of_alloc_site nine
    by (simp add: Whsize_wosize_def)
qed

section \<open>The retry loop\<close>

lemma funpow_shift: "(f ^^ Suc m) x = (f ^^ m) (f x)"
  by (simp only: funpow_Suc_right o_apply)

lemma ext_calls_interrupt_pass:
  "ext_calls (interrupt_pass env s) = ext_calls s @ [Handle_gc_interrupt, Process_pending_signals]"
  by (simp add: interrupt_pass_def call_process_pending_signals_def call_handle_gc_interrupt_def)

lemma ext_calls_funpow:
  "ext_calls ((interrupt_pass env ^^ n) s) =
     ext_calls s @ concat (replicate n [Handle_gc_interrupt, Process_pending_signals])"
proof (induction n arbitrary: s)
  case 0
  show ?case by simp
next
  case (Suc n)
  have "ext_calls ((interrupt_pass env ^^ Suc n) s) =
        ext_calls ((interrupt_pass env ^^ n) (interrupt_pass env s))"
    by (rule arg_cong [OF funpow_shift])
  also have "\<dots> = ext_calls (interrupt_pass env s) @
        concat (replicate n [Handle_gc_interrupt, Process_pending_signals])"
    by (rule Suc.IH)
  finally show ?case
    by (simp add: ext_calls_interrupt_pass)
qed


lemma retry_loop_returns_after:
  assumes "retry_loop env w s = Some s'"
  shows "\<exists>n. s' = (interrupt_pass env ^^ Suc n) s \<and> \<not> no_room env w s'
       \<and> (\<forall>k<n. no_room env w ((interrupt_pass env ^^ Suc k) s))"
proof (rule retry_loop.raw_induct [where P = "\<lambda>env w s s'. \<exists>n. s' = (interrupt_pass env ^^ Suc n) s \<and> \<not> no_room env w s'
       \<and> (\<forall>k<n. no_room env w ((interrupt_pass env ^^ Suc k) s))", OF _ assms])
  fix retry :: "runtime_env \<Rightarrow> intnat \<Rightarrow> caml_domain_state \<Rightarrow> caml_domain_state option"
    and env w s s'
  assume IH: "\<And>env w s s'. retry env w s = Some s' \<Longrightarrow>
     \<exists>n. s' = (interrupt_pass env ^^ Suc n) s \<and> \<not> no_room env w s'
       \<and> (\<forall>k<n. no_room env w ((interrupt_pass env ^^ Suc k) s))"
    and body: "(if no_room env w (interrupt_pass env s) then retry env w (interrupt_pass env s)
       else Some (interrupt_pass env s)) = Some s'"
  show "\<exists>n. s' = (interrupt_pass env ^^ Suc n) s \<and> \<not> no_room env w s'
       \<and> (\<forall>k<n. no_room env w ((interrupt_pass env ^^ Suc k) s))"
  proof (cases "no_room env w (interrupt_pass env s)")
    case True
    with body have "retry env w (interrupt_pass env s) = Some s'"
      by simp
    from IH [OF this] obtain n where n:
      "s' = (interrupt_pass env ^^ Suc n) (interrupt_pass env s)" "\<not> no_room env w s'"
      "\<forall>k<n. no_room env w ((interrupt_pass env ^^ Suc k) (interrupt_pass env s))"
      by blast
    have "\<forall>k<Suc n. no_room env w ((interrupt_pass env ^^ Suc k) s)"
    proof (intro allI impI)
      fix k assume "k < Suc n"
      show "no_room env w ((interrupt_pass env ^^ Suc k) s)"
      proof (cases k)
        case 0
        with True show ?thesis by simp
      next
        case (Suc j)
        with \<open>k < Suc n\<close> n(3) have "no_room env w ((interrupt_pass env ^^ Suc j) (interrupt_pass env s))"
          by simp
        with Suc show ?thesis
          by (simp only: funpow_shift [where m = "Suc j"])
      qed
    qed
    moreover have "s' = (interrupt_pass env ^^ Suc (Suc n)) s"
      using n(1) by (simp only: funpow_shift [where m = "Suc n"])
    ultimately show ?thesis
      using n(2) by blast
  next
    case False
    with body have "s' = interrupt_pass env s"
      by simp
    with False show ?thesis
      by (intro exI [of _ 0]) simp
  qed
qed

lemma retry_loop_returns:
  "\<not> no_room env w ((interrupt_pass env ^^ Suc n) s) \<Longrightarrow> \<exists>s'. retry_loop env w s = Some s'"
proof (induction n arbitrary: s)
  case 0
  have "retry_loop env w s =
      (if no_room env w (interrupt_pass env s) then retry_loop env w (interrupt_pass env s)
       else Some (interrupt_pass env s))"
    by (rule retry_loop.simps)
  with 0 show ?case
    by simp
next
  case (Suc n)
  from Suc.prems have "\<not> no_room env w ((interrupt_pass env ^^ Suc n) (interrupt_pass env s))"
    by (simp only: funpow_shift [where m = "Suc n"] not_False_eq_True)
  from Suc.IH [OF this] obtain s' where "retry_loop env w (interrupt_pass env s) = Some s'"
    by blast
  moreover have "retry_loop env w s =
      (if no_room env w (interrupt_pass env s) then retry_loop env w (interrupt_pass env s)
       else Some (interrupt_pass env s))"
    by (rule retry_loop.simps)
  ultimately show ?case
    by simp
qed

lemma ex_gc_alloc_site:
  "caml_garbage_collection ex_env ex_fds (ex_state 0x4038) = Some (Inr ex_state_on_return)"
  by code_simp

text \<open>
  C2. When a call from a site that is not a poll returns, the heap cursor, which the
  handler has just moved back by the requested header-inclusive size \<open>S\<close>, is strictly
  above the low-water limit: the \<open>S\<close> words from the cursor up are reserved. Before that
  the handler ran the two external entry points once per iteration, \<open>n + 1\<close> times in
  all, and it left the loop at the first iteration after which the cursor moved back by
  \<open>S\<close> was strictly above the limit (\<open>t\<close> is the state at that point).
\<close>

theorem cursor_above_limit_on_return:
  assumes "frame_of_call_site env fds s = Some (Inr d)"
    and "nallocs d \<noteq> 0"
    and "caml_garbage_collection env fds s = Some (Inr s')"
  shows "young_limit s' < young_ptr s'
       \<and> (\<exists>n t. t = (interrupt_pass env ^^ Suc n)
                      (s\<lparr>young_ptr := ptr_add env (young_ptr s) (total_whsize env d)\<rparr>)
            \<and> (\<forall>k<n. no_room env (total_whsize env d)
                  ((interrupt_pass env ^^ Suc k)
                     (s\<lparr>young_ptr := ptr_add env (young_ptr s) (total_whsize env d)\<rparr>)))
            \<and> \<not> no_room env (total_whsize env d) t
            \<and> s' = t\<lparr>young_ptr := ptr_sub env (young_ptr t) (total_whsize env d)\<rparr>
            \<and> ext_calls s' =
                ext_calls s @ concat (replicate (Suc n) [Handle_gc_interrupt, Process_pending_signals]))"
proof -
  let ?w = "total_whsize env d"
  let ?s0 = "s\<lparr>young_ptr := ptr_add env (young_ptr s) ?w\<rparr>"
  from assms have hf: "handle_frame env d s = Some (Inr s')"
    by (simp add: caml_garbage_collection_def)
  with assms(2) obtain t where t: "retry_loop env ?w ?s0 = Some t"
    and s': "s' = t\<lparr>young_ptr := ptr_sub env (young_ptr t) ?w\<rparr>"
    by (auto simp: handle_frame_def split: if_splits option.splits)
  from retry_loop_returns_after [OF t] obtain n where n:
    "t = (interrupt_pass env ^^ Suc n) ?s0" "\<not> no_room env ?w t"
    "\<forall>k<n. no_room env ?w ((interrupt_pass env ^^ Suc k) ?s0)"
    by blast
  from n(2) s' have "young_limit s' < young_ptr s'"
    by (simp add: no_room_def not_le)
  moreover have "ext_calls s' =
      ext_calls s @ concat (replicate (Suc n) [Handle_gc_interrupt, Process_pending_signals])"
    using s' n(1) ext_calls_funpow [where env = env and n = "Suc n" and s = ?s0] by simp
  ultimately show ?thesis
    using n s' by blast
qed

theorem cursor_above_limit_on_return_witness:
  "frame_of_call_site ex_env ex_fds (ex_state 0x4038) = Some (Inr ex_alloc_descr)
   \<and> nallocs ex_alloc_descr \<noteq> 0
   \<and> caml_garbage_collection ex_env ex_fds (ex_state 0x4038) = Some (Inr ex_state_on_return)
   \<and> young_limit ex_state_on_return < young_ptr ex_state_on_return
   \<and> ext_calls ex_state_on_return =
       [Handle_gc_interrupt, Process_pending_signals, Handle_gc_interrupt, Process_pending_signals]"
proof -
  have count: "nallocs ex_alloc_descr \<noteq> 0"
    by (simp add: nallocs_def ex_alloc_descr_def)
  have "young_limit ex_state_on_return < young_ptr ex_state_on_return"
    by (rule cursor_above_limit_on_return
        [OF ex_frame_of_alloc_site count ex_gc_alloc_site, THEN conjunct1])
  moreover have "ext_calls ex_state_on_return =
       [Handle_gc_interrupt, Process_pending_signals, Handle_gc_interrupt, Process_pending_signals]"
    by (simp add: ex_state_on_return_def)
  ultimately show ?thesis
    using ex_frame_of_alloc_site count ex_gc_alloc_site by blast
qed

section \<open>Lookup of the call site\<close>

lemma unat_mask_less: "unat (mask k :: uintnat) < 2 ^ k"
proof -
  have "unat ((- 1 :: uintnat) AND mask k) = unat (- 1 :: uintnat) mod 2 ^ k"
    by (rule unat_and_mask_mod)
  moreover have "unat (- 1 :: uintnat) mod 2 ^ k < 2 ^ k"
    by simp
  ultimately show ?thesis
    by simp
qed

lemma ex_fds_open_addressed: "open_addressed ex_env ex_fds"
proof -
  have "pow2_sized ex_fds"
    unfolding pow2_sized_def by (rule exI [of _ 2]) (simp add: ex_fds_def mask_eq_decr_exp)
  moreover have "\<forall>p \<in> {0 ..< length (descriptors ex_fds)}.
         case descriptors ex_fds ! p of
           None \<Rightarrow> True
         | Some d \<Rightarrow> probe_path_occupied ex_env ex_fds p d"
    by code_simp
  ultimately show ?thesis
    by (simp add: open_addressed_def)
qed

lemma ex_absent: "\<not> present ex_fds (word_at_sp (ex_state 0x4020))"
  by code_simp

lemma ex_full_absent: "\<not> present ex_full_fds (word_at_sp (ex_state 0x4020))"
  by code_simp

text \<open>Tables filled by open addressing are open-addressed in the sense above, and they
  hold every descriptor inserted.\<close>

lemma slot_in_table:
  assumes "j < n"
  shows "a mod n < (n :: nat)"
  using assms by (cases n) simp_all

lemma steps_to_slot:
  assumes "h < n" and "j < n"
  shows "((h + j) mod n + n - h) mod n = (j :: nat)"
proof (cases "h + j < n")
  case True
  then have "((h + j) mod n + n - h) = j + n"
    using assms by simp
  then show ?thesis
    using assms by simp
next
  case False
  then have "(h + j) mod n = h + j - n"
    using assms by (simp add: mod_if)
  with False have "((h + j) mod n + n - h) = j"
    by simp
  then show ?thesis
    using assms by simp
qed

lemma first_free_slot_Some:
  assumes "first_free_slot descs h = Some p"
  shows "\<exists>j < length descs. p = (h + j) mod length descs \<and> descs ! p = None
           \<and> (\<forall>i<j. descs ! ((h + i) mod length descs) \<noteq> None)"
proof -
  let ?free = "\<lambda>j. case descs ! ((h + j) mod length descs) of None \<Rightarrow> True | Some d \<Rightarrow> False"
  from assms obtain j where f: "List.find ?free [0 ..< length descs] = Some j"
    and p: "p = (h + j) mod length descs"
    by (auto simp: first_free_slot_def)
  from f obtain i where i: "i < length [0 ..< length descs]" "?free ([0 ..< length descs] ! i)"
    "j = [0 ..< length descs] ! i" "\<forall>i'<i. \<not> ?free ([0 ..< length descs] ! i')"
    unfolding find_Some_iff by blast
  then have "j < length descs" "?free j" "\<forall>i'<j. \<not> ?free i'"
    by simp_all
  with p show ?thesis
    by (auto split: option.splits)
qed


lemma probe_path_occupied_update:
  assumes "probe_path_occupied env fds q e" and "p < length (descriptors fds)"
  shows "probe_path_occupied env
           (fds\<lparr>num_descr := c, descriptors := (descriptors fds)[p := Some d]\<rparr>) q e"
proof -
  let ?n = "length (descriptors fds)"
  let ?h = "unat (Hash_retaddr env (retaddr e) (mask_fds fds))"
  from assms(1) have h: "?h < ?n"
    and path: "\<forall>i \<in> {0 ..< (q + ?n - ?h) mod ?n}. descriptors fds ! ((?h + i) mod ?n) \<noteq> None"
    by (simp_all add: probe_path_occupied_def Let_def)
  have "(descriptors fds)[p := Some d] ! ((?h + i) mod ?n) \<noteq> None"
    if "i \<in> {0 ..< (q + ?n - ?h) mod ?n}" for i
  proof (cases "(?h + i) mod ?n = p")
    case True
    with assms(2) show ?thesis by simp
  next
    case False
    with path that show ?thesis by simp
  qed
  with h show ?thesis
    by (simp add: probe_path_occupied_def Let_def)
qed

lemma insert_descr_open_addressed:
  assumes oa: "open_addressed env fds"
    and h: "unat (Hash_retaddr env (retaddr d) (mask_fds fds)) < length (descriptors fds)"
    and ins: "insert_descr env fds d = Some fds'"
  shows "open_addressed env fds'"
proof -
  let ?descs = "descriptors fds"
  let ?n = "length ?descs"
  let ?h = "unat (Hash_retaddr env (retaddr d) (mask_fds fds))"
  from ins obtain p where p: "first_free_slot ?descs ?h = Some p"
    and fds': "fds' = fds\<lparr>num_descr := num_descr fds + 1, descriptors := ?descs[p := Some d]\<rparr>"
    by (auto simp: insert_descr_def split: option.splits)
  from first_free_slot_Some [OF p] obtain j where j: "j < ?n" "p = (?h + j) mod ?n"
    "\<forall>i<j. ?descs ! ((?h + i) mod ?n) \<noteq> None"
    by blast
  from j(1) have pn: "p < ?n"
    unfolding j(2) by (rule slot_in_table)
  have "pow2_sized fds'"
    using oa fds' by (simp add: open_addressed_def pow2_sized_def)
  moreover have "case descriptors fds' ! q of None \<Rightarrow> True
                 | Some e \<Rightarrow> probe_path_occupied env fds' q e"
    if q: "q < length (descriptors fds')" for q
  proof (cases "q = p")
    case True
    have "(p + ?n - ?h) mod ?n = j"
      using j(1,2) h steps_to_slot [of ?h ?n j] by simp
    have "?descs[p := Some d] ! ((?h + i) mod ?n) \<noteq> None" if "i < j" for i
    proof (cases "(?h + i) mod ?n = p")
      case True
      with pn show ?thesis by simp
    next
      case False
      with j(3) that show ?thesis by simp
    qed
    with \<open>(p + ?n - ?h) mod ?n = j\<close> h have "probe_path_occupied env fds' p d"
      unfolding fds' by (simp add: probe_path_occupied_def Let_def)
    with True pn show ?thesis
      unfolding fds' by simp
  next
    case False
    show ?thesis
    proof (cases "?descs ! q")
      case None
      with False show ?thesis
        unfolding fds' by simp
    next
      case (Some e)
      with oa q have "probe_path_occupied env fds q e"
        unfolding fds' by (auto simp: open_addressed_def split: option.splits)
      from probe_path_occupied_update [OF this pn] Some False show ?thesis
        unfolding fds' by simp
    qed
  qed
  ultimately show ?thesis
    by (simp add: open_addressed_def)
qed


lemma insert_descr_present:
  assumes "insert_descr env fds d = Some fds'"
  shows "present fds' (retaddr d)" and "present fds ra \<Longrightarrow> present fds' ra"
proof -
  let ?descs = "descriptors fds"
  let ?h = "unat (Hash_retaddr env (retaddr d) (mask_fds fds))"
  from assms obtain p where p: "first_free_slot ?descs ?h = Some p"
    and fds': "fds' = fds\<lparr>num_descr := num_descr fds + 1, descriptors := ?descs[p := Some d]\<rparr>"
    by (auto simp: insert_descr_def split: option.splits)
  from first_free_slot_Some [OF p] obtain j where j: "j < length ?descs"
    "p = (?h + j) mod length ?descs" "?descs ! p = None"
    by blast
  from j(1) have pn: "p < length ?descs"
    unfolding j(2) by (rule slot_in_table)
  then have "Some d \<in> set (descriptors fds')"
    unfolding fds' by (simp add: set_update_memI)
  then show "present fds' (retaddr d)"
    by (auto simp: present_iff)
  show "present fds' ra" if "present fds ra"
  proof -
    from that obtain e q where e: "q < length ?descs" "?descs ! q = Some e" "retaddr e = ra"
      by (auto simp: present_iff in_set_conv_nth)
    with j(3) have "q \<noteq> p"
      by auto
    with e have "descriptors fds' ! q = Some e" "q < length (descriptors fds')"
      unfolding fds' by simp_all
    then have "Some e \<in> set (descriptors fds')"
      by (metis nth_mem)
    with e(3) show ?thesis
      by (auto simp: present_iff)
  qed
qed

lemma insert_descr_shape:
  assumes "insert_descr env fds d = Some fds'"
  shows "mask_fds fds' = mask_fds fds" and "length (descriptors fds') = length (descriptors fds)"
  using assms by (auto simp: insert_descr_def split: option.splits)

lemma insert_all_open_addressed:
  assumes "insert_all env fds ds = Some fds'" and "open_addressed env fds"
    and "\<forall>d \<in> set ds. unat (Hash_retaddr env (retaddr d) (mask_fds fds)) < length (descriptors fds)"
  shows "open_addressed env fds' \<and> (\<forall>d \<in> set ds. present fds' (retaddr d))
         \<and> (\<forall>ra. present fds ra \<longrightarrow> present fds' ra)"
  using assms
proof (induction ds arbitrary: fds)
  case Nil
  then show ?case by simp
next
  case (Cons d ds)
  from Cons.prems(1) obtain fds1 where 1: "insert_descr env fds d = Some fds1"
    and 2: "insert_all env fds1 ds = Some fds'"
    by (auto split: option.splits)
  from Cons.prems(3) have hd: "unat (Hash_retaddr env (retaddr d) (mask_fds fds)) < length (descriptors fds)"
    by simp
  have oa1: "open_addressed env fds1"
    by (rule insert_descr_open_addressed [OF Cons.prems(2) hd 1])
  from Cons.prems(3) insert_descr_shape [OF 1]
  have "\<forall>d \<in> set ds. unat (Hash_retaddr env (retaddr d) (mask_fds fds1)) < length (descriptors fds1)"
    by simp
  from Cons.IH [OF 2 oa1 this]
  have IH: "open_addressed env fds'" "\<forall>d \<in> set ds. present fds' (retaddr d)"
    "\<forall>ra. present fds1 ra \<longrightarrow> present fds' ra"
    by blast+
  from IH(3) insert_descr_present(1) [OF 1] have "present fds' (retaddr d)"
    by blast
  moreover from IH(3) insert_descr_present(2) [OF 1] have "\<forall>ra. present fds ra \<longrightarrow> present fds' ra"
    by blast
  ultimately show ?case
    using IH(1,2) by simp
qed

lemma empty_table_open_addressed:
  assumes "k \<le> 64"
  shows "open_addressed env (empty_table k)"
proof -
  have "pow2_sized (empty_table k)"
    unfolding pow2_sized_def using assms by (intro exI [of _ k]) (simp add: empty_table_def)
  moreover have "\<forall>p \<in> {0 ..< length (descriptors (empty_table k))}.
      case descriptors (empty_table k) ! p of None \<Rightarrow> True
      | Some d \<Rightarrow> probe_path_occupied env (empty_table k) p d"
    by (simp add: empty_table_def)
  ultimately show ?thesis
    by (simp add: open_addressed_def)
qed

lemma built_table_open_addressed:
  assumes "k \<le> 64"
    and "\<forall>d \<in> set ds. unat (Hash_retaddr env (retaddr d) (mask k)) < 2 ^ k"
    and "insert_all env (empty_table k) ds = Some fds"
  shows "open_addressed env fds" and "\<forall>d \<in> set ds. present fds (retaddr d)"
proof -
  from assms(2)
  have "\<forall>d \<in> set ds. unat (Hash_retaddr env (retaddr d) (mask_fds (empty_table k)))
          < length (descriptors (empty_table k))"
    by (simp add: empty_table_def)
  from insert_all_open_addressed [OF assms(3) empty_table_open_addressed [OF assms(1)] this]
  show "open_addressed env fds" and "\<forall>d \<in> set ds. present fds (retaddr d)"
    by blast+
qed

lemma ex_fds_built:
  "map_option (\<lambda>fds. (num_descr fds, mask_fds fds, map (map_option retaddr) (descriptors fds)))
     (insert_all ex_env (empty_table 2) [ex_poll_descr, ex_alloc_descr, ex_unflagged_poll_descr]) =
   Some (num_descr ex_fds, mask_fds ex_fds, map (map_option retaddr) (descriptors ex_fds))"
  by code_simp

text \<open>
  C5. In a frame-descriptor table built by open addressing with linear probing of step 1,
  of power-of-two size and indexed through the bit mask, the probe loop terminates for
  every return address present in the table, and it yields a descriptor whose stored
  return address equals the one queried. The table is described by \<open>open_addressed\<close>,
  which holds of every table filled by insertion (\<open>built_table_open_addressed\<close>).
\<close>

theorem lookup_succeeds_for_present_key:
  assumes "open_addressed env fds" and "present fds (word_at_sp s)"
  shows "\<exists>d. frame_of_call_site env fds s = Some (Inr d) \<and> retaddr d = word_at_sp s"
  using lookup_present [OF assms] by (simp add: frame_of_call_site_def)

theorem lookup_succeeds_for_present_key_witness:
  "open_addressed ex_env ex_fds \<and> present ex_fds (word_at_sp (ex_state 0x4038))
   \<and> (\<exists>d. frame_of_call_site ex_env ex_fds (ex_state 0x4038) = Some (Inr d)
          \<and> retaddr d = word_at_sp (ex_state 0x4038))"
proof -
  have pr: "present ex_fds (word_at_sp (ex_state 0x4038))"
    by code_simp
  from lookup_succeeds_for_present_key [OF ex_fds_open_addressed pr] ex_fds_open_addressed pr
  show ?thesis
    by blast
qed

text \<open>
  C4, as the code has it. For a return address with no matching descriptor in the table,
  control never returns to the caller, and nothing is reported: the handler either
  dereferences an empty slot, which is a memory fault, or never leaves the probe loop.
  In a table of power-of-two size probed from a slot inside it, the first happens when
  the table has an empty slot and the second when it has none.
\<close>

theorem absent_key_never_returns:
  assumes "\<not> present fds (word_at_sp s)"
  shows "(caml_garbage_collection env fds s = None
          \<or> caml_garbage_collection env fds s = Some (Inl Memory_fault))
       \<and> (pow2_sized fds
            \<and> unat (Hash_retaddr env (word_at_sp s) (mask_fds fds)) < length (descriptors fds)
          \<longrightarrow> caml_garbage_collection env fds s =
                (if None \<in> set (descriptors fds) then Some (Inl Memory_fault) else None))"
proof (intro conjI impI)
  show "caml_garbage_collection env fds s = None
          \<or> caml_garbage_collection env fds s = Some (Inl Memory_fault)"
  proof (cases "frame_of_call_site env fds s")
    case None
    then show ?thesis
      by (simp add: caml_garbage_collection_def)
  next
    case (Some r)
    show ?thesis
    proof (cases r)
      case (Inl f)
      with Some find_frame_descr_result [of "descriptors fds" "mask_fds fds" "word_at_sp s"
          "Hash_retaddr env (word_at_sp s) (mask_fds fds)" r]
      have "f = Memory_fault"
        by (simp add: frame_of_call_site_def)
      with Some Inl show ?thesis
        by (simp add: caml_garbage_collection_def)
    next
      case (Inr d)
      with Some absent_not_found [OF assms] show ?thesis
        by (simp add: frame_of_call_site_def)
    qed
  qed
next
  assume a: "pow2_sized fds
            \<and> unat (Hash_retaddr env (word_at_sp s) (mask_fds fds)) < length (descriptors fds)"
  then obtain k where k: "k \<le> 64" "mask_fds fds = mask k" "length (descriptors fds) = 2 ^ k"
    by (auto simp: pow2_sized_def)
  have m: "unat (mask_fds fds) < length (descriptors fds)"
    using k unat_mask_less [of k] by simp
  show "caml_garbage_collection env fds s =
                (if None \<in> set (descriptors fds) then Some (Inl Memory_fault) else None)"
  proof (cases "None \<in> set (descriptors fds)")
    case True
    with absent_null_faults [OF assms True] a show ?thesis
      by (simp add: caml_garbage_collection_def frame_of_call_site_def)
  next
    case False
    with absent_full_diverges [OF assms False m] a show ?thesis
      by (simp add: caml_garbage_collection_def frame_of_call_site_def)
  qed
qed

theorem absent_key_never_returns_witness:
  "\<not> present ex_fds (word_at_sp (ex_state 0x4020)) \<and> pow2_sized ex_fds
   \<and> unat (Hash_retaddr ex_env (word_at_sp (ex_state 0x4020)) (mask_fds ex_fds))
       < length (descriptors ex_fds)
   \<and> None \<in> set (descriptors ex_fds)
   \<and> caml_garbage_collection ex_env ex_fds (ex_state 0x4020) = Some (Inl Memory_fault)"
proof -
  have sz: "pow2_sized ex_fds"
    using ex_fds_open_addressed by (simp add: open_addressed_def)
  have h: "unat (Hash_retaddr ex_env (word_at_sp (ex_state 0x4020)) (mask_fds ex_fds))
       < length (descriptors ex_fds)"
    by (simp add: ex_env_def ex_state_def ex_fds_def)
  have null: "None \<in> set (descriptors ex_fds)"
    by (simp add: ex_fds_def)
  from absent_key_never_returns [OF ex_absent, of ex_env] sz h null
  have "caml_garbage_collection ex_env ex_fds (ex_state 0x4020) = Some (Inl Memory_fault)"
    by simp
  with ex_absent sz h null show ?thesis
    by blast
qed

text \<open>
  C4, as stated, fails. In a table with an empty slot the handler stops on a memory fault,
  which is no report of the runtime's; in a table with no empty slot the probe loop runs
  forever on an absent return address, so the process is not even terminated.
\<close>

theorem absent_key_fatal_report_counterexample:
  "\<not> present ex_fds (word_at_sp (ex_state 0x4020))
   \<and> caml_garbage_collection ex_env ex_fds (ex_state 0x4020) = Some (Inl Memory_fault)
   \<and> \<not> reported_fatal Memory_fault
   \<and> \<not> present ex_full_fds (word_at_sp (ex_state 0x4020))
   \<and> caml_garbage_collection ex_env ex_full_fds (ex_state 0x4020) = None"
proof -
  have "find_frame_descr (descriptors ex_fds) (mask_fds ex_fds)
          (word_at_sp (ex_state 0x4020))
          (Hash_retaddr ex_env (word_at_sp (ex_state 0x4020)) (mask_fds ex_fds)) =
        Some (Inl Memory_fault)"
  proof (rule absent_null_faults [OF ex_absent])
    show "None \<in> set (descriptors ex_fds)"
      by (simp add: ex_fds_def)
    show "pow2_sized ex_fds"
      using ex_fds_open_addressed by (simp add: open_addressed_def)
    show "unat (Hash_retaddr ex_env (word_at_sp (ex_state 0x4020)) (mask_fds ex_fds))
           < length (descriptors ex_fds)"
      by (simp add: ex_env_def ex_state_def ex_fds_def)
  qed
  then have fault: "caml_garbage_collection ex_env ex_fds (ex_state 0x4020) = Some (Inl Memory_fault)"
    by (simp add: caml_garbage_collection_def frame_of_call_site_def)
  have "find_frame_descr (descriptors ex_full_fds) (mask_fds ex_full_fds)
          (word_at_sp (ex_state 0x4020))
          (Hash_retaddr ex_env (word_at_sp (ex_state 0x4020)) (mask_fds ex_full_fds)) = None"
  proof (rule absent_full_diverges [OF ex_full_absent])
    show "None \<notin> set (descriptors ex_full_fds)"
      by (simp add: ex_full_fds_def)
    show "unat (mask_fds ex_full_fds) < length (descriptors ex_full_fds)"
      by (simp add: ex_full_fds_def)
    show "unat (Hash_retaddr ex_env (word_at_sp (ex_state 0x4020)) (mask_fds ex_full_fds))
           < length (descriptors ex_full_fds)"
      by (simp add: ex_env_def ex_state_def ex_full_fds_def)
  qed
  then have "caml_garbage_collection ex_env ex_full_fds (ex_state 0x4020) = None"
    by (simp add: caml_garbage_collection_def frame_of_call_site_def)
  moreover have "\<not> reported_fatal Memory_fault"
    by (simp add: reported_fatal_def)
  ultimately show ?thesis
    using ex_absent ex_full_absent fault by blast
qed

section \<open>Safe-point polls\<close>

lemma ext_calls_poll:
  "ext_calls (call_process_pending_signals env (call_handle_gc_interrupt env s)) =
     ext_calls s @ [Handle_gc_interrupt, Process_pending_signals]"
  by (simp add: call_process_pending_signals_def call_handle_gc_interrupt_def)

lemma ex_frame_of_poll_site:
  "frame_of_call_site ex_quiet_env ex_fds (ex_state 0x4018) = Some (Inr ex_poll_descr)"
  apply (simp add: frame_of_call_site_def ex_quiet_env_def ex_env_def ex_fds_def ex_state_def)
  apply (subst find_frame_descr.simps)
  apply (simp add: ex_poll_descr_def)
  done

lemma ex_frame_of_unflagged_site:
  "frame_of_call_site ex_env ex_fds (ex_state 0x4010) = Some (Inr ex_unflagged_poll_descr)"
  apply (simp add: frame_of_call_site_def ex_env_def ex_fds_def ex_state_def)
  apply (subst find_frame_descr.simps)
  apply (simp add: ex_unflagged_poll_descr_def)
  done

text \<open>
  C3, as the code has it. For a frame descriptor whose count byte is 0 and which passes the
  allocation-frame assertion when the runtime is built with assertions, whatever its
  other fields, the handler invokes the interrupt-handling entry point once, then drains
  the pending signals once, and returns. It adjusts the heap cursor in no way: the state
  on return is the one the two calls leave, so the cursor is unchanged whenever they
  leave it unchanged.
\<close>

theorem poll_runs_one_pass:
  assumes "frame_of_call_site env fds s = Some (Inr d)"
    and "alloc_len d 0 = 0"
    and "debug_runtime env \<longrightarrow> is_alloc_frame d"
  shows "caml_garbage_collection env fds s =
           Some (Inr (call_process_pending_signals env (call_handle_gc_interrupt env s)))
       \<and> ext_calls (call_process_pending_signals env (call_handle_gc_interrupt env s)) =
           ext_calls s @ [Handle_gc_interrupt, Process_pending_signals]
       \<and> ((\<forall>t. young_ptr (caml_handle_gc_interrupt env t) = young_ptr t)
            \<and> (\<forall>t. young_ptr (caml_process_pending_signals env t) = young_ptr t)
          \<longrightarrow> young_ptr (call_process_pending_signals env (call_handle_gc_interrupt env s)) =
                young_ptr s)"
proof (intro conjI impI)
  from assms show "caml_garbage_collection env fds s =
           Some (Inr (call_process_pending_signals env (call_handle_gc_interrupt env s)))"
    by (simp add: caml_garbage_collection_def handle_frame_def nallocs_def)
next
  show "ext_calls (call_process_pending_signals env (call_handle_gc_interrupt env s)) =
           ext_calls s @ [Handle_gc_interrupt, Process_pending_signals]"
    by (rule ext_calls_poll)
next
  assume "(\<forall>t. young_ptr (caml_handle_gc_interrupt env t) = young_ptr t)
            \<and> (\<forall>t. young_ptr (caml_process_pending_signals env t) = young_ptr t)"
  then show "young_ptr (call_process_pending_signals env (call_handle_gc_interrupt env s)) =
                young_ptr s"
    by (simp add: call_process_pending_signals_def call_handle_gc_interrupt_def)
qed

theorem poll_runs_one_pass_witness:
  "frame_of_call_site ex_quiet_env ex_fds (ex_state 0x4018) = Some (Inr ex_poll_descr)
   \<and> alloc_len ex_poll_descr 0 = 0
   \<and> debug_runtime ex_quiet_env \<and> is_alloc_frame ex_poll_descr
   \<and> (\<forall>t. young_ptr (caml_handle_gc_interrupt ex_quiet_env t) = young_ptr t)
   \<and> (\<forall>t. young_ptr (caml_process_pending_signals ex_quiet_env t) = young_ptr t)
   \<and> caml_garbage_collection ex_quiet_env ex_fds (ex_state 0x4018) =
       Some (Inr \<lparr>young_ptr = 0xFFC0, young_limit = 0x10000, word_at_sp = 0x4018,
                   extern_state = 0,
                   ext_calls = [Handle_gc_interrupt, Process_pending_signals]\<rparr>)
   \<and> young_ptr (call_process_pending_signals ex_quiet_env
         (call_handle_gc_interrupt ex_quiet_env (ex_state 0x4018))) = young_ptr (ex_state 0x4018)"
proof -
  have count: "alloc_len ex_poll_descr 0 = 0"
    by (simp add: ex_poll_descr_def)
  have debug: "debug_runtime ex_quiet_env" and alloc: "is_alloc_frame ex_poll_descr"
    by (simp_all add: is_alloc_frame_def ex_poll_descr_def ex_quiet_env_def ex_env_def)
  then have flagged: "debug_runtime ex_quiet_env \<longrightarrow> is_alloc_frame ex_poll_descr"
    by simp
  have quiet: "\<forall>t. young_ptr (caml_handle_gc_interrupt ex_quiet_env t) = young_ptr t"
    "\<forall>t. young_ptr (caml_process_pending_signals ex_quiet_env t) = young_ptr t"
    by (simp_all add: ex_quiet_env_def ex_env_def)
  note inst = poll_runs_one_pass [OF ex_frame_of_poll_site count flagged]
  from inst have "caml_garbage_collection ex_quiet_env ex_fds (ex_state 0x4018) =
       Some (Inr \<lparr>young_ptr = 0xFFC0, young_limit = 0x10000, word_at_sp = 0x4018,
                   extern_state = 0,
                   ext_calls = [Handle_gc_interrupt, Process_pending_signals]\<rparr>)"
    by (simp add: call_process_pending_signals_def call_handle_gc_interrupt_def
        ex_quiet_env_def ex_env_def ex_state_def)
  moreover from inst quiet
  have "young_ptr (call_process_pending_signals ex_quiet_env
         (call_handle_gc_interrupt ex_quiet_env (ex_state 0x4018))) = young_ptr (ex_state 0x4018)"
    by blast
  ultimately show ?thesis
    using ex_frame_of_poll_site count debug alloc quiet by blast
qed

text \<open>
  C3, as stated, fails. In the debug runtime a descriptor whose count byte is 0 but whose
  frame-size field lacks the allocation bit stops at the assertion, before the poll is
  recognised. And where the poll is recognised, the cursor on return is the one the
  interrupt pass leaves: with the collector of \<open>ex_env\<close>, which moves the cursor, it is
  not the cursor on entry.
\<close>

theorem poll_regardless_of_flags_counterexample:
  "frame_of_call_site ex_env ex_fds (ex_state 0x4010) = Some (Inr ex_unflagged_poll_descr)
   \<and> alloc_len ex_unflagged_poll_descr 0 = 0
   \<and> caml_garbage_collection ex_env ex_fds (ex_state 0x4010) = Some (Inl Assertion_failed)
   \<and> caml_garbage_collection ex_env ex_fds (ex_state 0x4018) =
       Some (Inr \<lparr>young_ptr = 0xFFE8, young_limit = 0x10000, word_at_sp = 0x4018,
                   extern_state = 0,
                   ext_calls = [Handle_gc_interrupt, Process_pending_signals]\<rparr>)
   \<and> young_ptr (ex_state 0x4018) = 0xFFC0"
proof -
  have "alloc_len ex_unflagged_poll_descr 0 = 0"
    by (simp add: ex_unflagged_poll_descr_def)
  moreover have "debug_runtime ex_env \<and> \<not> is_alloc_frame ex_unflagged_poll_descr"
    by (simp add: ex_env_def is_alloc_frame_def ex_unflagged_poll_descr_def)
  then have "caml_garbage_collection ex_env ex_fds (ex_state 0x4010) = Some (Inl Assertion_failed)"
    using ex_frame_of_unflagged_site by (simp add: caml_garbage_collection_def handle_frame_def)
  moreover have "caml_garbage_collection ex_env ex_fds (ex_state 0x4018) =
       Some (Inr \<lparr>young_ptr = 0xFFE8, young_limit = 0x10000, word_at_sp = 0x4018,
                   extern_state = 0,
                   ext_calls = [Handle_gc_interrupt, Process_pending_signals]\<rparr>)"
    by code_simp
  moreover have "young_ptr (ex_state 0x4018) = 0xFFC0"
    by (simp add: ex_state_def)
  ultimately show ?thesis
    using ex_frame_of_unflagged_site by blast
qed

section \<open>Signal dispositions\<close>

lemma caml_set_signal_action_result:
  "caml_set_signal_action p signo action st =
     (if os_accepts p signo
      then (code_of_oldact (disposition st signo),
            st\<lparr>disposition := (disposition st)(signo := handler_of_action action)\<rparr>)
      else (- 1, st\<lparr>errno := EINVAL p\<rparr>))"
  by (simp add: caml_set_signal_action_def sigaction_def signal_def Let_def)

text \<open>
  C6. The value returned by \<^verbatim>\<open>caml_set_signal_action\<close> is \<open>-1\<close> exactly when the
  registration call it makes (\<^verbatim>\<open>sigaction\<close> with POSIX signals, \<^verbatim>\<open>signal\<close> otherwise)
  reports an error; otherwise it tells the disposition the signal had before the call:
  2 for the runtime's trampoline, 1 for the ignore disposition, 0 for anything else.
\<close>

theorem set_signal_action_reports_previous:
  "fst (caml_set_signal_action p signo action st) =
     (if (if POSIX_SIGNALS p
          then fst (sigaction p signo (handler_of_action action) st) = None
          else fst (signal p signo (handler_of_action action) st) = None)
      then - 1
      else if disposition st signo = Handle_signal then 2
      else if disposition st signo = SIG_IGN then 1
      else 0)
   \<and> (fst (caml_set_signal_action p signo action st) = - 1 \<longleftrightarrow>
        (if POSIX_SIGNALS p
         then fst (sigaction p signo (handler_of_action action) st) = None
         else fst (signal p signo (handler_of_action action) st) = None))"
  by (simp add: caml_set_signal_action_result sigaction_def signal_def code_of_oldact_def)

theorem set_signal_action_reports_previous_witness:
  "fst (sigaction ex_posix 9 SIG_IGN ex_signal_state) = None
   \<and> fst (caml_set_signal_action ex_posix 9 1 ex_signal_state) = - 1
   \<and> fst (signal ex_ansi 2 SIG_DFL (ex_signal_state\<lparr>disposition := (\<lambda>n. Handle_signal)\<rparr>))
       = Some Handle_signal
   \<and> fst (caml_set_signal_action ex_ansi 2 0
            (ex_signal_state\<lparr>disposition := (\<lambda>n. Handle_signal)\<rparr>)) = 2"
  using set_signal_action_reports_previous [of ex_posix 9 1 ex_signal_state]
    set_signal_action_reports_previous
      [of ex_ansi 2 0 "ex_signal_state\<lparr>disposition := (\<lambda>n. Handle_signal)\<rparr>"]
  by (simp add: sigaction_def signal_def handler_of_action_def ex_posix_def ex_ansi_def
      ex_signal_state_def)

text \<open>
  C7. For a signal number the operating system accepts, setting the disposition to
  ignore (action 1) and then setting it again, to any action, returns 1 from the second
  call: the previous disposition was ignore.
\<close>

theorem ignore_then_set_reports_ignored:
  assumes "os_accepts p signo"
  shows "fst (caml_set_signal_action p signo action
               (snd (caml_set_signal_action p signo 1 st))) = 1"
  using assms
  by (simp add: caml_set_signal_action_result code_of_oldact_def handler_of_action_def)

theorem ignore_then_set_reports_ignored_witness:
  "os_accepts ex_posix 10
   \<and> fst (caml_set_signal_action ex_posix 10 0
            (snd (caml_set_signal_action ex_posix 10 1 ex_signal_state))) = 1"
proof -
  have ok: "os_accepts ex_posix 10"
    by (simp add: ex_posix_def)
  from ignore_then_set_reports_ignored [OF ok, of 0 ex_signal_state] ok show ?thesis
    by blast
qed

text \<open>
  C10. Every action code other than 0 and 1 is treated as the runtime-managed one: the
  call behaves as with action 2, and when the operating system accepts the signal number
  the trampoline is the handler installed and the result is not the failure value.
\<close>

theorem unknown_action_installs_trampoline:
  assumes "action \<noteq> 0" and "action \<noteq> 1"
  shows "caml_set_signal_action p signo action st = caml_set_signal_action p signo 2 st
       \<and> (os_accepts p signo \<longrightarrow>
            disposition (snd (caml_set_signal_action p signo action st)) signo = Handle_signal
            \<and> fst (caml_set_signal_action p signo action st) \<noteq> - 1)"
  using assms
  by (simp add: caml_set_signal_action_result code_of_oldact_def handler_of_action_def)

theorem unknown_action_installs_trampoline_witness:
  "(7 :: int) \<noteq> 0 \<and> (7 :: int) \<noteq> 1 \<and> os_accepts ex_posix 10
   \<and> caml_set_signal_action ex_posix 10 7 ex_signal_state =
       caml_set_signal_action ex_posix 10 2 ex_signal_state
   \<and> disposition (snd (caml_set_signal_action ex_posix 10 7 ex_signal_state)) 10 = Handle_signal
   \<and> fst (caml_set_signal_action ex_posix 10 7 ex_signal_state) \<noteq> - 1"
proof -
  have ok: "os_accepts ex_posix 10"
    by (simp add: ex_posix_def)
  have codes: "(7 :: int) \<noteq> 0" "(7 :: int) \<noteq> 1"
    by simp_all
  from unknown_action_installs_trampoline [OF codes, of ex_posix 10 ex_signal_state] ok codes
  show ?thesis
    by blast
qed

section \<open>The trampoline\<close>

lemma handle_signal_errno_in_range:
  assumes "0 \<le> sig" and "sig < NSIG p"
  shows "errno (handle_signal p sig st) = errno st"
  using assms by (simp add: handle_signal_def Let_def)

lemma handle_signal_errno_posix:
  assumes "POSIX_SIGNALS p \<or> BSD_SIGNALS p"
  shows "errno (handle_signal p sig st) = errno st"
  using assms by (auto simp: handle_signal_def Let_def)

text \<open>
  C9. Invoked with a signal number below 0 or at least \<^verbatim>\<open>NSIG\<close>, the trampoline returns
  without calling \<^verbatim>\<open>caml_record_signal\<close>: the state on return is the state on entry,
  or, on a platform with neither POSIX nor BSD signals, the state the call of \<^verbatim>\<open>signal\<close>
  re-arming the handler leaves. The Pending-Signal Set is unchanged, and the function has
  no other outcome than this return.
\<close>

theorem out_of_range_signal_dropped:
  assumes "sig < 0 \<or> NSIG p \<le> sig"
  shows "handle_signal p sig st =
           (if \<not> POSIX_SIGNALS p \<and> \<not> BSD_SIGNALS p
            then snd (signal p sig Handle_signal st) else st)
       \<and> pending_signals (handle_signal p sig st) = pending_signals st"
  using assms
  by (auto simp: handle_signal_def signal_def Let_def)

theorem out_of_range_signal_dropped_witness:
  "NSIG ex_posix \<le> 65
   \<and> handle_signal ex_posix 65 ex_signal_state = ex_signal_state
   \<and> pending_signals (handle_signal ex_posix 65 ex_signal_state) = {}
   \<and> pending_signals (handle_signal ex_posix 64 ex_signal_state) = {64}"
proof -
  have range: "65 < (0 :: int) \<or> NSIG ex_posix \<le> 65"
    by (simp add: ex_posix_def)
  from out_of_range_signal_dropped [OF range, of ex_signal_state]
  have "handle_signal ex_posix 65 ex_signal_state = ex_signal_state"
    and "pending_signals (handle_signal ex_posix 65 ex_signal_state) = {}"
    by (simp_all add: ex_posix_def ex_signal_state_def)
  moreover have "pending_signals (handle_signal ex_posix 64 ex_signal_state) = {64}"
    by (simp add: handle_signal_def Let_def ex_posix_def ex_signal_state_def ex_record_signal_def)
  ultimately show ?thesis
    using range by simp
qed

text \<open>
  The function taken alone does lose \<^verbatim>\<open>errno\<close> on one path: entered, on a platform with
  neither POSIX nor BSD signals, with an out-of-range number that \<^verbatim>\<open>signal\<close> rejects, it
  returns before the restoration with the error code of the failed re-arming. The function
  is static and its address is only handed to \<^verbatim>\<open>signal\<close> and \<^verbatim>\<open>sigaction\<close>, so the
  operating system enters it only with a number for which it accepted the handler.
\<close>

lemma early_return_skips_restore:
  "\<not> POSIX_SIGNALS ex_ansi \<and> \<not> BSD_SIGNALS ex_ansi \<and> NSIG ex_ansi \<le> 23
   \<and> \<not> os_accepts ex_ansi 23
   \<and> errno ex_signal_state = 0
   \<and> errno (handle_signal ex_ansi 23 ex_signal_state) = 22"
  by (simp add: handle_signal_def signal_def Let_def ex_ansi_def ex_signal_state_def)

text \<open>
  C8. For every signal number with which the trampoline is invoked, out-of-range numbers
  included, \<^verbatim>\<open>errno\<close> on return is \<^verbatim>\<open>errno\<close> on entry. The trampoline is invoked by the
  operating system for a signal whose handler it accepted, which is the first case of the
  hypothesis; with POSIX or BSD signals, and for a number in range, the equation holds of
  every call.
\<close>

theorem errno_preserved_by_trampoline:
  assumes "os_accepts p sig \<or> POSIX_SIGNALS p \<or> BSD_SIGNALS p \<or> (0 \<le> sig \<and> sig < NSIG p)"
  shows "errno (handle_signal p sig st) = errno st"
proof (cases "sig < 0 \<or> NSIG p \<le> sig")
  case False
  then show ?thesis
    by (intro handle_signal_errno_in_range) simp_all
next
  case True
  show ?thesis
  proof (cases "POSIX_SIGNALS p \<or> BSD_SIGNALS p")
    case True
    then show ?thesis
      by (rule handle_signal_errno_posix)
  next
    case False
    with assms \<open>sig < 0 \<or> NSIG p \<le> sig\<close> have "os_accepts p sig"
      by auto
    with False \<open>sig < 0 \<or> NSIG p \<le> sig\<close> show ?thesis
      by (auto simp: handle_signal_def signal_def Let_def)
  qed
qed

theorem errno_preserved_by_trampoline_witness:
  "\<not> POSIX_SIGNALS ex_fallback \<and> \<not> BSD_SIGNALS ex_fallback
   \<and> NSIG ex_fallback \<le> 64 \<and> os_accepts ex_fallback 64
   \<and> errno (handle_signal ex_fallback 64 ex_signal_state) = errno ex_signal_state
   \<and> os_accepts ex_fallback 2
   \<and> errno (caml_record_signal ex_fallback 2 ex_signal_state) = 11
   \<and> errno ex_signal_state = 0
   \<and> errno (handle_signal ex_fallback 2 ex_signal_state) = errno ex_signal_state"
proof -
  have platform: "\<not> POSIX_SIGNALS ex_fallback" "\<not> BSD_SIGNALS ex_fallback"
    "NSIG ex_fallback \<le> 64"
    by (simp_all add: ex_fallback_def)
  have ok: "os_accepts ex_fallback 64" "os_accepts ex_fallback 2"
    by (simp_all add: ex_fallback_def)
  have clobber: "errno (caml_record_signal ex_fallback 2 ex_signal_state) = 11"
    "errno ex_signal_state = 0"
    by (simp_all add: ex_fallback_def ex_record_signal_def ex_signal_state_def)
  have "errno (handle_signal ex_fallback 64 ex_signal_state) = errno ex_signal_state"
    by (rule errno_preserved_by_trampoline) (simp add: ok)
  moreover have "errno (handle_signal ex_fallback 2 ex_signal_state) = errno ex_signal_state"
    by (rule errno_preserved_by_trampoline) (simp add: ok)
  ultimately show ?thesis
    using platform ok clobber by blast
qed

end
